theory Spec2Isabelle
  imports Main "HOL-Library.Multiset" "HOL-Library.Sublist"
begin

text \<open>
  A shallow embedding of the bulk processor and the loaders of ytranscript, with the
  properties the specification states of them. The definitions come first, module by
  module, then the properties.
\<close>

section \<open>Data model\<close>

text \<open>
  The records of \<open>src/types.ts\<close> as the loaders and the processor build them.
  A \<open>WatchHistoryMeta\<close> is the candidate video; its channel is a pair of optional name
  and url. The transcript type is left as a type variable: the processor only passes
  transcripts through.
\<close>

datatype video_source = History | Watch_later | Manual

record WatchHistoryMeta =
  videoId :: string
  title :: "string option"
  url :: "string option"
  channel :: "(string option \<times> string option) option"
  watchedAt :: "string option"
  source :: video_source

record 't TranscriptResult =
  meta :: WatchHistoryMeta
  transcript :: "'t option"
  error :: "string option"

text \<open>
  What a JavaScript \<open>catch\<close> can receive: an \<open>Error\<close> instance with its message,
  or any other thrown value.
\<close>

datatype thrown = Error_obj string | Non_error

text \<open>
  The network is the environment: \<open>net k vid\<close> is how the call
  \<open>fetchTranscript(vid, fetchOptions)\<close> of the \<open>k\<close>-th attempt settles, with \<open>Inl\<close> for a
  rejection. Every attempt is taken to settle (the fetcher has its own timeout).
\<close>

type_synonym 't network = "nat \<Rightarrow> string \<Rightarrow> thrown + 't"

text \<open>
  The observable effects of a bulk run, in the order they happen: an attempt is
  dispatched (its \<open>fetchTranscript\<close> call starts), it completes, the progress callback
  is invoked, the generator yields, the scheduler sleeps.
\<close>

datatype 't event =
    Dispatch nat
  | Complete nat
  | Progress nat nat "'t TranscriptResult"
  | Yield "'t TranscriptResult"
  | Sleep int

text \<open>
  \<open>BulkOptions\<close>: every field is optional in the source. \<open>onProgress\<close> records whether
  a callback was supplied; its invocations are \<open>Progress\<close> events.
\<close>

record BulkOptions =
  concurrency :: "int option"
  pauseAfter :: "int option"
  pauseDuration :: "int option"
  skipIds :: "string set option"
  onProgress :: bool

definition DEFAULT_CONCURRENCY :: int where "DEFAULT_CONCURRENCY = 4"
definition DEFAULT_PAUSE_AFTER :: int where "DEFAULT_PAUSE_AFTER = 10"
definition DEFAULT_PAUSE_DURATION :: int where "DEFAULT_PAUSE_DURATION = 5000"

definition or_default :: "'a option \<Rightarrow> 'a \<Rightarrow> 'a" where
  "or_default v d = (case v of None \<Rightarrow> d | Some x \<Rightarrow> x)"

datatype failure = TypeError

text \<open>
  \<open>pLimit\<close> is the third-party limiter: its constructor throws a \<open>TypeError\<close> unless the
  concurrency is a positive integer, and then never runs later than that many tasks at
  once, starting queued tasks in the order they were submitted.
\<close>

definition pLimit :: "int \<Rightarrow> failure + nat" where
  "pLimit c = (if 1 \<le> c then Inr (nat c) else Inl TypeError)"

text \<open>\<open>Array.prototype.slice\<close>: a negative index counts from the end, both are clamped.\<close>

definition slice :: "'a list \<Rightarrow> int \<Rightarrow> int \<Rightarrow> 'a list" where
  "slice xs start stop =
     (let len = int (length xs);
          k = (if start < 0 then max (len + start) 0 else min start len);
          fin = (if stop < 0 then max (len + stop) 0 else min stop len)
      in take (nat (fin - k)) (drop (nat k) xs))"

section \<open>The bulk processor (\<open>src/lib/processor.ts\<close>)\<close>

text \<open>\<open>videos.filter((v) => !skipIds.has(v.videoId))\<close>\<close>

definition toProcess_of :: "WatchHistoryMeta list \<Rightarrow> string set \<Rightarrow> WatchHistoryMeta list" where
  "toProcess_of videos skip = filter (\<lambda>v. videoId v \<notin> skip) videos"

text \<open>Each candidate with its position in \<open>toProcess\<close>, which numbers its attempt.\<close>

definition attempts :: "WatchHistoryMeta list \<Rightarrow> (nat \<times> WatchHistoryMeta) list" where
  "attempts toProcess = zip [0..<length toProcess] toProcess"

text \<open>\<open>processOne\<close>: the try/catch around one \<open>fetchTranscript\<close> call.\<close>

definition processOne :: "'t network \<Rightarrow> nat \<times> WatchHistoryMeta \<Rightarrow> 't TranscriptResult" where
  "processOne net a =
     (case net (fst a) (videoId (snd a)) of
        Inr t \<Rightarrow> \<lparr>meta = snd a, transcript = Some t, error = None\<rparr>
      | Inl e \<Rightarrow>
          \<lparr>meta = snd a, transcript = None,
           error = Some (case e of Error_obj message \<Rightarrow> message | Non_error \<Rightarrow> ''Unknown error'')\<rparr>)"

text \<open>
  The partitioning loop
  \<open>for (let i = 0; i < toProcess.length; i += pauseAfter) batches.push(toProcess.slice(i, i + pauseAfter))\<close>.
  It need not terminate, so not returning is the value \<open>None\<close>.
\<close>

partial_function (option) make_batches ::
  "'a list \<Rightarrow> int \<Rightarrow> int \<Rightarrow> 'a list list \<Rightarrow> 'a list list option" where
  "make_batches toProcess pa i batches =
     (if i < int (length toProcess)
      then make_batches toProcess pa (i + pa) (batches @ [slice toProcess i (i + pa)])
      else Some batches)"

declare make_batches.simps [code]

text \<open>
  The partition the loop is meant to build: consecutive batches of \<open>p\<close> elements, the
  last one possibly smaller. It is what \<open>make_batches\<close> is compared with.
\<close>

function chunks :: "nat \<Rightarrow> 'a list \<Rightarrow> 'a list list" where
  "chunks p xs = (if xs = [] \<or> p = 0 then [] else take p xs # chunks p (drop p xs))"
  by pat_completeness auto
termination
  by (relation "measure (\<lambda>(p, xs). length xs)") auto

declare chunks.simps [simp del]

text \<open>
  One batch under the limiter. \<open>active\<close> are the attempts in flight, \<open>queue\<close> those the
  limiter holds back. Which attempt in flight completes next is the environment's
  choice: \<open>pick n\<close> picks it (modulo the number in flight) when \<open>n\<close> attempts have
  completed so far, so that every order of completion is some \<open>pick\<close>. On completion
  the counter is incremented, the callback is invoked when there is one, and the limiter
  starts the next queued attempt.
\<close>

function pool_loop ::
  "'t network \<Rightarrow> (nat \<Rightarrow> nat) \<Rightarrow> bool \<Rightarrow> nat \<Rightarrow>
   (nat \<times> WatchHistoryMeta) list \<Rightarrow> (nat \<times> WatchHistoryMeta) list \<Rightarrow> nat \<Rightarrow>
   't event list \<times> nat" where
  "pool_loop net pick cb ntotal active queue completed =
     (if active = [] then ([], completed)
      else
        let k = pick completed mod length active;
            a = active ! k;
            result = processOne net a;
            started = take 1 queue;
            rest = pool_loop net pick cb ntotal
                     (take k active @ drop (Suc k) active @ started) (drop 1 queue)
                     (completed + 1)
        in (Complete (fst a)
              # (if cb then [Progress (completed + 1) ntotal result] else [])
              @ map (\<lambda>s. Dispatch (fst s)) started
              @ fst rest,
            snd rest))"
  by pat_completeness auto
termination
proof (relation "measure (\<lambda>(net, pick, cb, ntotal, active, queue, completed).
                  length active + length queue)", goal_cases)
  case 1
  show ?case by simp
next
  case (2 net pick cb ntotal active queue completed k a result started)
  define j where "j = pick completed mod length active"
  from 2(1) have "j < length active" by (simp add: j_def)
  then have "j + (length active - Suc j) < length active" by arith
  with 2 show ?case by (cases queue) (auto simp: j_def)
qed

declare pool_loop.simps [simp del]

definition run_batch ::
  "'t network \<Rightarrow> (nat \<Rightarrow> nat) \<Rightarrow> bool \<Rightarrow> nat \<Rightarrow> nat \<Rightarrow>
   (nat \<times> WatchHistoryMeta) list \<Rightarrow> nat \<Rightarrow> 't event list \<times> nat" where
  "run_batch net pick cb ntotal limit batch completed =
     (let rest = pool_loop net pick cb ntotal (take limit batch) (drop limit batch) completed
      in (map (\<lambda>s. Dispatch (fst s)) (take limit batch) @ fst rest, snd rest))"

text \<open>
  The loop over the batches: \<open>Promise.all\<close> gives the batch's results in the order of
  the batch, whatever the order of completion; the pause follows every batch but the
  last when \<open>pauseDuration > 0\<close>.
\<close>

fun run_batches ::
  "'t network \<Rightarrow> (nat \<Rightarrow> nat) \<Rightarrow> bool \<Rightarrow> nat \<Rightarrow> nat \<Rightarrow> int \<Rightarrow>
   (nat \<times> WatchHistoryMeta) list list \<Rightarrow> nat \<Rightarrow>
   't TranscriptResult list \<times> 't event list" where
  "run_batches net pick cb ntotal limit pd [] completed = ([], [])"
| "run_batches net pick cb ntotal limit pd (batch # later) completed =
     (let ran = run_batch net pick cb ntotal limit batch completed;
          batchResults = map (processOne net) batch;
          pause = (if later \<noteq> [] \<and> pd > 0 then [Sleep pd] else []);
          rest = run_batches net pick cb ntotal limit pd later (snd ran)
      in (batchResults @ fst rest, fst ran @ pause @ snd rest))"

text \<open>
  \<open>processVideos\<close> (collect mode). \<open>None\<close>: the call never returns; \<open>Some (Inl e)\<close>: the
  promise is rejected with \<open>e\<close>; \<open>Some (Inr (results, events))\<close>: it resolves to
  \<open>results\<close>, having caused \<open>events\<close>.
\<close>

definition processVideos ::
  "'t network \<Rightarrow> (nat \<Rightarrow> nat) \<Rightarrow> WatchHistoryMeta list \<Rightarrow> BulkOptions \<Rightarrow>
   (failure + 't TranscriptResult list \<times> 't event list) option" where
  "processVideos net pick videos options =
     (let toProcess = toProcess_of videos (or_default (skipIds options) {})
      in if toProcess = [] then Some (Inr ([], []))
         else
           case pLimit (or_default (concurrency options) DEFAULT_CONCURRENCY) of
             Inl e \<Rightarrow> Some (Inl e)
           | Inr limit \<Rightarrow>
               (case make_batches (attempts toProcess)
                       (or_default (pauseAfter options) DEFAULT_PAUSE_AFTER) 0 [] of
                  None \<Rightarrow> None
                | Some batches \<Rightarrow>
                    Some (Inr (run_batches net pick (onProgress options) (length toProcess)
                                 limit (or_default (pauseDuration options) DEFAULT_PAUSE_DURATION)
                                 batches 0))))"

text \<open>
  \<open>streamVideos\<close> (stream mode), drained to its end. Each iteration awaits its attempt
  before the next one is submitted to the limiter; \<open>onProgress\<close> is not read.
\<close>

fun stream_loop ::
  "'t network \<Rightarrow> int \<Rightarrow> int \<Rightarrow> (nat \<times> WatchHistoryMeta) list \<Rightarrow> int \<Rightarrow> 't event list" where
  "stream_loop net pa pd [] processedInBatch = []"
| "stream_loop net pa pd (a # later) processedInBatch =
     (let result =
            (case net (fst a) (videoId (snd a)) of
               Inr t \<Rightarrow> \<lparr>meta = snd a, transcript = Some t, error = None\<rparr>
             | Inl e \<Rightarrow>
                 \<lparr>meta = snd a, transcript = None,
                  error = Some (case e of Error_obj message \<Rightarrow> message
                                | Non_error \<Rightarrow> ''Unknown error'')\<rparr>)
      in [Dispatch (fst a), Complete (fst a), Yield result]
         @ (if processedInBatch + 1 \<ge> pa
            then (if pd > 0 then [Sleep pd] else []) @ stream_loop net pa pd later 0
            else stream_loop net pa pd later (processedInBatch + 1)))"

definition streamVideos ::
  "'t network \<Rightarrow> WatchHistoryMeta list \<Rightarrow> BulkOptions \<Rightarrow> failure + 't event list" where
  "streamVideos net videos options =
     (let toProcess = toProcess_of videos (or_default (skipIds options) {})
      in if toProcess = [] then Inr []
         else
           case pLimit (or_default (concurrency options) DEFAULT_CONCURRENCY) of
             Inl e \<Rightarrow> Inl e
           | Inr limit \<Rightarrow>
               Inr (stream_loop net (or_default (pauseAfter options) DEFAULT_PAUSE_AFTER)
                      (or_default (pauseDuration options) DEFAULT_PAUSE_DURATION)
                      (attempts toProcess) 0))"

text \<open>Reading a trace.\<close>

fun yields :: "'t event list \<Rightarrow> 't TranscriptResult list" where
  "yields [] = []"
| "yields (Yield r # es) = r # yields es"
| "yields (e # es) = yields es"

fun progress_calls :: "'t event list \<Rightarrow> (nat \<times> nat \<times> 't TranscriptResult) list" where
  "progress_calls [] = []"
| "progress_calls (Progress c n r # es) = (c, n, r) # progress_calls es"
| "progress_calls (e # es) = progress_calls es"

fun sleeps :: "'t event list \<Rightarrow> int list" where
  "sleeps [] = []"
| "sleeps (Sleep d # es) = d # sleeps es"
| "sleeps (e # es) = sleeps es"

text \<open>
  The completions and the calls of the callback in a trace, and the trace in which the
  attempts of \<open>order\<close> complete one after the other, each completion followed at once by
  the call of the callback with the next count, the total and the result of that very
  attempt.
\<close>

fun completions :: "'t event list \<Rightarrow> 't event list" where
  "completions [] = []"
| "completions (Complete i # es) = Complete i # completions es"
| "completions (Progress c n r # es) = Progress c n r # completions es"
| "completions (e # es) = completions es"

fun callbacks_in_order ::
  "'t network \<Rightarrow> nat \<Rightarrow> nat \<Rightarrow> (nat \<times> WatchHistoryMeta) list \<Rightarrow> 't event list" where
  "callbacks_in_order net ntotal completed [] = []"
| "callbacks_in_order net ntotal completed (a # order) =
     Complete (fst a) # Progress (completed + 1) ntotal (processOne net a)
       # callbacks_in_order net ntotal (completed + 1) order"

text \<open>The largest number of attempts in flight at any point of a trace.\<close>

fun in_flight_max :: "'t event list \<Rightarrow> nat \<Rightarrow> nat" where
  "in_flight_max [] cur = cur"
| "in_flight_max (Dispatch i # es) cur = max cur (in_flight_max es (cur + 1))"
| "in_flight_max (Complete i # es) cur = max cur (in_flight_max es (cur - 1))"
| "in_flight_max (e # es) cur = in_flight_max es cur"

section \<open>Example inputs\<close>

text \<open>
  A candidate as \<open>fromVideoIds\<close> builds it from a bare identifier, a network on which one
  video is rate limited, and options given field by field.
\<close>

definition manual_video :: "string \<Rightarrow> WatchHistoryMeta" where
  "manual_video vid =
     \<lparr>videoId = vid, title = None,
      url = Some (''https://www.youtube.com/watch?v='' @ vid),
      channel = None, watchedAt = None, source = Manual\<rparr>"

definition example_net :: "nat network" where
  "example_net k vid =
     (if vid = ''bbbbbbbbbbb'' then Inl (Error_obj ''HTTP 429'') else Inr k)"

definition options_with :: "int option \<Rightarrow> int option \<Rightarrow> int option \<Rightarrow> string set option \<Rightarrow> bool \<Rightarrow> BulkOptions" where
  "options_with c pa pd skip cb =
     \<lparr>concurrency = c, pauseAfter = pa, pauseDuration = pd, skipIds = skip, onProgress = cb\<rparr>"

section \<open>The loaders (\<open>src/loaders/index.ts\<close>)\<close>

text \<open>
  A JavaScript \<open>Map\<close> keeps its entries in insertion order: an association list to which
  \<open>set\<close> appends a new key, and in which it overwrites the value of a key already there.
\<close>

type_synonym ('k, 'v) js_map = "('k \<times> 'v) list"

definition map_has :: "('k, 'v) js_map \<Rightarrow> 'k \<Rightarrow> bool" where
  "map_has m k = (map_of m k \<noteq> None)"

definition map_set :: "('k, 'v) js_map \<Rightarrow> 'k \<Rightarrow> 'v \<Rightarrow> ('k, 'v) js_map" where
  "map_set m k v =
     (if map_has m k then map (\<lambda>e. if fst e = k then (k, v) else e) m else m @ [(k, v)])"

definition map_values :: "('k, 'v) js_map \<Rightarrow> 'v list" where
  "map_values m = map snd m"

text \<open>\<open>mergeVideoSources\<close>: the two nested loops over the sources and their records.\<close>

definition merge_step ::
  "(string, WatchHistoryMeta) js_map \<Rightarrow> WatchHistoryMeta \<Rightarrow> (string, WatchHistoryMeta) js_map" where
  "merge_step seen m = (if \<not> map_has seen (videoId m) then map_set seen (videoId m) m else seen)"

definition mergeVideoSources :: "WatchHistoryMeta list list \<Rightarrow> WatchHistoryMeta list" where
  "mergeVideoSources sources =
     map_values (foldl (\<lambda>seen source. foldl merge_step seen source) [] sources)"

definition history_video :: "string \<Rightarrow> string \<Rightarrow> WatchHistoryMeta" where
  "history_video vid t =
     \<lparr>videoId = vid, title = Some t, url = None, channel = None, watchedAt = None,
      source = History\<rparr>"

definition watch_later_video :: "string \<Rightarrow> string \<Rightarrow> WatchHistoryMeta" where
  "watch_later_video vid t =
     \<lparr>videoId = vid, title = Some t, url = None, channel = None, watchedAt = None,
      source = Watch_later\<rparr>"

section \<open>JavaScript strings\<close>

text \<open>
  Strings are lists of characters with codes below 256. \<open>trim\<close> removes the white space
  and line terminators of that range from both ends; \<open>split_on\<close> is
  \<open>String.prototype.split\<close> with a one-character separator, which always returns at
  least one piece.
\<close>

definition is_space :: "char \<Rightarrow> bool" where
  "is_space c = (c \<in> set [CHR 0x09, CHR 0x0A, CHR 0x0B, CHR 0x0C, CHR 0x0D, CHR 0x20, CHR 0xA0])"

definition trim :: "string \<Rightarrow> string" where
  "trim s = rev (dropWhile is_space (rev (dropWhile is_space s)))"

fun split_on :: "char \<Rightarrow> string \<Rightarrow> string list" where
  "split_on sep [] = [[]]"
| "split_on sep (c # cs) =
     (if c = sep then [] # split_on sep cs
      else (case split_on sep cs of [] \<Rightarrow> [[c]] | piece # pieces \<Rightarrow> (c # piece) # pieces))"



section \<open>Files\<close>

datatype js_file = Missing | Unreadable | Content string

datatype load_error = Read_error | Parse_error

text \<open>\<open>file.exists()\<close> and \<open>file.text()\<close>; reading a file that cannot be read rejects.\<close>

definition file_exists :: "js_file \<Rightarrow> bool" where
  "file_exists f = (f \<noteq> Missing)"

definition file_text :: "js_file \<Rightarrow> load_error + string" where
  "file_text f = (case f of Content text \<Rightarrow> Inr text | _ \<Rightarrow> Inl Read_error)"

section \<open>The watch-later loader\<close>








section \<open>The watch-history loader\<close>






section \<open>Manual input\<close>











section \<open>The track selector\<close>

text \<open>
  Modelled from the spec: the track selector lives in \<open>src/lib/fetcher.ts\<close>, which is not
  among the sources. The definitions follow section 4.3 of the specification: a caption
  track with its language code and kind, and the selection that walks the preferred
  language tags in order, collects for each the tracks whose language code starts with
  the tag, returns the first manual track of that subset or else its first track, and
  falls back to the first track of the list when no tag matched.
\<close>

datatype track_kind = MANUAL | AUTO_GENERATED

record CaptionTrack =
  languageCode :: string
  kind :: track_kind
  displayName :: "string option"
  retrievalRef :: string

fun select :: "CaptionTrack list \<Rightarrow> string list \<Rightarrow> CaptionTrack option" where
  "select [] preferredLanguages = None"
| "select (t # ts) [] = Some t"
| "select (t # ts) (tag # tags) =
     (let subset = filter (\<lambda>c. prefix tag (languageCode c)) (t # ts)
      in case find (\<lambda>c. kind c = MANUAL) subset of
           Some manual \<Rightarrow> Some manual
         | None \<Rightarrow> (case subset of first # _ \<Rightarrow> Some first | [] \<Rightarrow> select (t # ts) tags))"

definition track :: "string \<Rightarrow> track_kind \<Rightarrow> CaptionTrack" where
  "track code k = \<lparr>languageCode = code, kind = k, displayName = None, retrievalRef = code\<rparr>"

section \<open>Processed identifiers (\<open>loadProcessedIds\<close>)\<close>

text \<open>
  What \<open>JSON.parse\<close> returns. The type of numbers is a parameter: a number is only tested
  for being zero. The fields of an object are in the order of the text, and a repeated
  key has the value of its last occurrence. \<open>JSON.parse\<close> itself is the runtime's: it is
  a parameter of the loader, with \<open>None\<close> where it throws a \<open>SyntaxError\<close>.
\<close>

datatype 'n json =
    JNull
  | JBool bool
  | JNum 'n
  | JStr string
  | JArr "'n json list"
  | JObj "(string \<times> 'n json) list"

fun truthy :: "'n::zero json \<Rightarrow> bool" where
  "truthy JNull = False"
| "truthy (JBool b) = b"
| "truthy (JNum n) = (n \<noteq> 0)"
| "truthy (JStr s) = (s \<noteq> [])"
| "truthy (JArr xs) = True"
| "truthy (JObj members) = True"

text \<open>
  Reading a property: of \<open>null\<close> it throws a \<open>TypeError\<close>; of an object it gives the field
  or \<open>undefined\<close> (\<open>None\<close>); of any other value it gives \<open>undefined\<close> for the two names
  read here, \<open>meta\<close> and \<open>videoId\<close>, which no prototype defines.
\<close>

fun get_prop :: "'n json \<Rightarrow> string \<Rightarrow> failure + 'n json option" where
  "get_prop JNull k = Inl TypeError"
| "get_prop (JObj members) k = Inr (map_of (rev members) k)"
| "get_prop v k = Inr None"

text \<open>\<open>record.meta?.videoId\<close>\<close>

definition meta_videoId :: "'n json \<Rightarrow> failure + 'n json option" where
  "meta_videoId record =
     (case get_prop record ''meta'' of
        Inl e \<Rightarrow> Inl e
      | Inr None \<Rightarrow> Inr None
      | Inr (Some m) \<Rightarrow> (if m = JNull then Inr None else get_prop m ''videoId''))"

text \<open>
  A JavaScript \<open>Set\<close> in insertion order: a primitive value is added once, an object or
  an array is a new reference every time it is parsed.
\<close>

fun is_primitive :: "'n json \<Rightarrow> bool" where
  "is_primitive (JArr xs) = False"
| "is_primitive (JObj members) = False"
| "is_primitive v = True"

definition set_add :: "'n json list \<Rightarrow> 'n json \<Rightarrow> 'n json list" where
  "set_add ids v = (if is_primitive v \<and> v \<in> set ids then ids else ids @ [v])"

text \<open>The body of the loop over the lines, with its \<open>try\<close> and \<open>catch\<close>.\<close>

definition process_line ::
  "(string \<Rightarrow> 'n::zero json option) \<Rightarrow> 'n json list \<Rightarrow> string \<Rightarrow> 'n json list" where
  "process_line JSON_parse ids line =
     (case JSON_parse line of
        None \<Rightarrow> ids
      | Some record \<Rightarrow>
          (case meta_videoId record of
             Inl e \<Rightarrow> ids
           | Inr mv \<Rightarrow>
               if (case mv of None \<Rightarrow> False | Some v \<Rightarrow> truthy v)
               then (case mv of None \<Rightarrow> ids | Some v \<Rightarrow> set_add ids v)
               else
                 (case get_prop record ''videoId'' of
                    Inl e \<Rightarrow> ids
                  | Inr tv \<Rightarrow>
                      if (case tv of None \<Rightarrow> False | Some v \<Rightarrow> truthy v)
                      then (case tv of None \<Rightarrow> ids | Some v \<Rightarrow> set_add ids v)
                      else ids)))"

definition loadProcessedIds ::
  "(string \<Rightarrow> 'n::zero json option) \<Rightarrow> js_file \<Rightarrow> load_error + 'n json list" where
  "loadProcessedIds JSON_parse f =
     (if \<not> file_exists f then Inr []
      else
        case file_text f of
          Inl e \<Rightarrow> Inr []
        | Inr text \<Rightarrow>
            Inr (foldl (process_line JSON_parse) []
                   (filter (\<lambda>l. trim l \<noteq> []) (split_on (CHR 0x0A) text))))"

text \<open>
  The identifier a parsed line contributes, without exceptions: \<open>field\<close> reads a field of
  an object and is undefined for everything else; the line gives its \<open>meta.videoId\<close> when
  that is truthy, otherwise its top-level \<open>videoId\<close> when that is truthy.
\<close>

fun field :: "'n json \<Rightarrow> string \<Rightarrow> 'n json option" where
  "field (JObj members) k = map_of (rev members) k"
| "field v k = None"

definition truthy_field :: "'n::zero json option \<Rightarrow> 'n json option" where
  "truthy_field v = (case v of None \<Rightarrow> None | Some x \<Rightarrow> if truthy x then Some x else None)"

definition line_id :: "'n::zero json \<Rightarrow> 'n json option" where
  "line_id record =
     (case truthy_field (case field record ''meta'' of None \<Rightarrow> None | Some m \<Rightarrow> field m ''videoId'') of
        Some v \<Rightarrow> Some v
      | None \<Rightarrow> truthy_field (field record ''videoId''))"

text \<open>
  The set the claim describes, in its own words: every \<open>videoId\<close> string found, as
  \<open>meta.videoId\<close> or at the top level, in a line that parses.
\<close>

definition videoId_strings :: "'n json \<Rightarrow> 'n json list" where
  "videoId_strings record =
     (case (case field record ''meta'' of None \<Rightarrow> None | Some m \<Rightarrow> field m ''videoId'') of
        Some (JStr s) \<Rightarrow> [JStr s] | _ \<Rightarrow> [])
     @ (case field record ''videoId'' of Some (JStr s) \<Rightarrow> [JStr s] | _ \<Rightarrow> [])"

definition videoId_strings_in :: "(string \<Rightarrow> 'n json option) \<Rightarrow> string \<Rightarrow> 'n json list" where
  "videoId_strings_in JSON_parse text =
     concat (map (\<lambda>line. case JSON_parse line of None \<Rightarrow> [] | Some record \<Rightarrow> videoId_strings record)
               (split_on (CHR 0x0A) text))"

text \<open>
  Example lines with what \<open>JSON.parse\<close> makes of them: the lines of the loader's test with
  a malformed line, and a line that carries both members.
\<close>

definition example_JSON_parse :: "string \<Rightarrow> int json option" where
  "example_JSON_parse line =
     (if line = ''{\"meta\":{\"videoId\":\"good1\"}}''
      then Some (JObj [(''meta'', JObj [(''videoId'', JStr ''good1'')])])
      else if line = ''{\"meta\":{\"videoId\":\"good2\"}}''
      then Some (JObj [(''meta'', JObj [(''videoId'', JStr ''good2'')])])
      else if line = ''{\"meta\":{\"videoId\":\"a\"},\"videoId\":\"b\"}''
      then Some (JObj [(''meta'', JObj [(''videoId'', JStr ''a'')]), (''videoId'', JStr ''b'')])
      else if line = ''null'' then Some JNull
      else None)"

definition malformed_jsonl :: string where
  "malformed_jsonl =
     ''{\"meta\":{\"videoId\":\"good1\"}}\<newline>not json\<newline>{\"meta\":{\"videoId\":\"good2\"}}''"

section \<open>Properties of the bulk processor\<close>

subsection \<open>The partitioning loop\<close>

lemma slice_nonneg:
  "0 \<le> i \<Longrightarrow> 0 \<le> p \<Longrightarrow> slice xs i (i + p) = take (nat p) (drop (nat i) xs)"
proof -
  assume i: "0 \<le> i" and p: "0 \<le> p"
  let ?n = "int (length xs)"
  consider "?n < i" | "i \<le> ?n" "i + p \<le> ?n" | "i \<le> ?n" "?n < i + p" by linarith
  then show ?thesis
  proof cases
    case 1
    then show ?thesis using i p by (simp add: slice_def Let_def min_def)
  next
    case 2
    then have "nat (i + p - i) = nat p" by simp
    with 2 show ?thesis using i p by (simp add: slice_def Let_def min_def)
  next
    case 3
    then have "length (drop (nat i) xs) \<le> nat p" "length (drop (nat i) xs) \<le> nat (?n - i)"
      using i p by simp_all
    with 3 show ?thesis using i p by (simp add: slice_def Let_def min_def)
  qed
qed

lemma make_batches_pos:
  assumes "1 \<le> pa"
  shows "0 \<le> i \<Longrightarrow> make_batches xs pa i bs = Some (bs @ chunks (nat pa) (drop (nat i) xs))"
proof (induction "length xs - nat i" arbitrary: i bs rule: less_induct)
  case less
  show ?case
  proof (cases "i < int (length xs)")
    case False
    then show ?thesis using less.prems
      by (subst make_batches.simps) (simp add: chunks.simps)
  next
    case True
    have lt: "length xs - nat (i + pa) < length xs - nat i"
      using True assms less.prems by linarith
    have nn: "0 \<le> i + pa" using assms less.prems by simp
    have dr: "drop (nat (i + pa)) xs = drop (nat pa) (drop (nat i) xs)"
      using assms less.prems by (simp add: nat_add_distrib add.commute)
    have ne: "drop (nat i) xs \<noteq> []" using True less.prems by simp
    have "make_batches xs pa i bs
            = make_batches xs pa (i + pa) (bs @ [slice xs i (i + pa)])"
      using True by (subst make_batches.simps) simp
    also have "\<dots> = Some ((bs @ [slice xs i (i + pa)]) @ chunks (nat pa) (drop (nat (i + pa)) xs))"
      by (rule less.hyps [OF lt nn])
    also have "\<dots> = Some (bs @ chunks (nat pa) (drop (nat i) xs))"
      using ne assms less.prems
      by (subst (2) chunks.simps) (simp add: slice_nonneg dr)
    finally show ?thesis .
  qed
qed

lemma make_batches_stuck:
  assumes "make_batches xs pa i bs = Some r" and "pa \<le> 0"
  shows "\<not> i < int (length xs)"
  using assms
proof (induction rule: make_batches.raw_induct [rotated 1, consumes 1])
  case (1 f xs pa i bs r)
  show ?case
  proof
    assume lt: "i < int (length xs)"
    with 1(2) have "f xs pa (i + pa) (bs @ [slice xs i (i + pa)]) = Some r" by simp
    from 1(1) [OF this 1(3)] lt 1(3) show False by simp
  qed
qed

lemma concat_chunks: "0 < p \<Longrightarrow> concat (chunks p xs) = xs"
proof (induction p xs rule: chunks.induct)
  case (1 p xs)
  then show ?case by (subst chunks.simps) auto
qed


subsection \<open>The limiter's pool\<close>

lemma remove_nth_mset:
  "k < length xs \<Longrightarrow> mset (take k xs @ drop (Suc k) xs) + {#xs ! k#} = mset xs"
proof -
  assume "k < length xs"
  then have "xs = take k xs @ xs ! k # drop (Suc k) xs" by (rule id_take_nth_drop)
  then have "mset xs = mset (take k xs @ xs ! k # drop (Suc k) xs)" by simp
  then show ?thesis by simp
qed

lemma pool_loop_count:
  "(active = [] \<Longrightarrow> queue = []) \<Longrightarrow>
   snd (pool_loop net pick cb n active queue c) = c + length active + length queue"
proof (induction net pick cb n active queue c rule: pool_loop.induct)
  case (1 net pick cb n active queue c)
  show ?case
  proof (cases "active = []")
    case True
    with 1(2) show ?thesis by (subst pool_loop.simps) simp
  next
    case False
    define k where "k = pick c mod length active"
    have k: "k < length active" using False by (simp add: k_def)
    have inv: "take k active @ drop (Suc k) active @ take 1 queue = [] \<Longrightarrow> drop 1 queue = []"
      by (cases queue) auto
    have "snd (pool_loop net pick cb n active queue c)
            = snd (pool_loop net pick cb n (take k active @ drop (Suc k) active @ take 1 queue)
                     (drop 1 queue) (c + 1))"
      using False by (subst pool_loop.simps) (simp add: Let_def k_def)
    also have "\<dots> = (c + 1) + length (take k active @ drop (Suc k) active @ take 1 queue)
                       + length (drop 1 queue)"
      using False inv by (intro "1.IH" [OF False k_def refl refl refl])
    also have "\<dots> = c + length active + length queue"
      using k by (cases queue) auto
    finally show ?thesis .
  qed
qed

lemma progress_calls_append [simp]:
  "progress_calls (xs @ ys) = progress_calls xs @ progress_calls ys"
  by (induction xs rule: progress_calls.induct) auto

lemma sleeps_append [simp]: "sleeps (xs @ ys) = sleeps xs @ sleeps ys"
  by (induction xs rule: sleeps.induct) auto

lemma progress_calls_Dispatch [simp]: "progress_calls (map (\<lambda>s. Dispatch (f s)) xs) = []"
  by (induction xs) auto

lemma sleeps_Dispatch [simp]: "sleeps (map (\<lambda>s. Dispatch (f s)) xs) = []"
  by (induction xs) auto

lemma pool_loop_sleeps: "sleeps (fst (pool_loop net pick cb n active queue c)) = []"
proof (induction net pick cb n active queue c rule: pool_loop.induct)
  case (1 net pick cb n active queue c)
  show ?case
  proof (cases "active = []")
    case True
    then show ?thesis by (subst pool_loop.simps) simp
  next
    case False
    from "1.IH" [OF False refl refl refl refl] False show ?thesis
      by (subst pool_loop.simps) (simp add: Let_def)
  qed
qed

lemma pool_loop_no_callback:
  "progress_calls (fst (pool_loop net pick False n active queue c)) = []"
proof (induction net pick "False" n active queue c rule: pool_loop.induct)
  case (1 net pick n active queue c)
  show ?case
  proof (cases "active = []")
    case True
    then show ?thesis by (subst pool_loop.simps) simp
  next
    case False
    from "1.hyps" [OF False refl refl refl refl] False show ?thesis
      by (subst pool_loop.simps) (simp add: Let_def)
  qed
qed

lemma pool_loop_progress:
  "(active = [] \<Longrightarrow> queue = []) \<Longrightarrow>
   map fst (progress_calls (fst (pool_loop net pick True n active queue c)))
     = [c + 1 ..< c + 1 + (length active + length queue)]
   \<and> (\<forall>p \<in> set (progress_calls (fst (pool_loop net pick True n active queue c))). fst (snd p) = n)
   \<and> mset (map (\<lambda>p. snd (snd p)) (progress_calls (fst (pool_loop net pick True n active queue c))))
     = mset (map (processOne net) (active @ queue))"
proof (induction net pick "True" n active queue c rule: pool_loop.induct)
  case (1 net pick n active queue c)
  show ?case
  proof (cases "active = []")
    case True
    with 1(2) show ?thesis by (subst (1 2 3) pool_loop.simps) simp
  next
    case False
    define k where "k = pick c mod length active"
    define active' where "active' = take k active @ drop (Suc k) active @ take 1 queue"
    define rest where "rest = progress_calls (fst (pool_loop net pick True n active' (drop 1 queue) (c + 1)))"
    have k: "k < length active" using False by (simp add: k_def)
    have inv: "active' = [] \<Longrightarrow> drop 1 queue = []"
      by (cases queue) (auto simp: active'_def)
    have unfold: "progress_calls (fst (pool_loop net pick True n active queue c))
            = (c + 1, n, processOne net (active ! k)) # rest"
      using False by (subst pool_loop.simps) (simp add: Let_def k_def rest_def active'_def)
    have len: "length active' + length (drop 1 queue) + 1 = length active + length queue"
      using k by (cases queue) (auto simp: active'_def)
    have ms: "mset (active' @ drop 1 queue) + {#active ! k#} = mset (active @ queue)"
      using remove_nth_mset [OF k] by (cases queue) (auto simp: active'_def)
    have IH: "map fst rest = [c + 1 + 1 ..< c + 1 + 1 + (length active' + length (drop 1 queue))]
       \<and> (\<forall>p \<in> set rest. fst (snd p) = n)
       \<and> mset (map (\<lambda>p. snd (snd p)) rest) = mset (map (processOne net) (active' @ drop 1 queue))"
      unfolding rest_def active'_def
      using inv by (intro "1.hyps" [OF False k_def refl refl refl]) (simp add: active'_def)
    have a: "map fst ((c + 1, n, processOne net (active ! k)) # rest)
               = [c + 1 ..< c + 1 + (length active + length queue)]"
    proof -
      define m where "m = length active' + length (drop 1 queue)"
      have tot: "length active + length queue = m + 1" using len by (simp add: m_def)
      have "[c + 1 ..< c + 1 + (m + 1)] = (c + 1) # [Suc (c + 1) ..< c + 1 + (m + 1)]"
        by (rule upt_conv_Cons) simp
      also have "\<dots> = (c + 1) # [c + 1 + 1 ..< c + 1 + 1 + m]" by simp
      finally show ?thesis using IH unfolding tot m_def by simp
    qed
    have b: "mset (map (\<lambda>p. snd (snd p)) ((c + 1, n, processOne net (active ! k)) # rest))
               = mset (map (processOne net) (active @ queue))"
    proof -
      have "mset (map (processOne net) (active @ queue))
              = image_mset (processOne net) (mset (active' @ drop 1 queue) + {#active ! k#})"
        by (simp only: ms mset_map)
      then show ?thesis using IH by simp
    qed
    show ?thesis unfolding unfold using a b IH by simp
  qed
qed


subsection \<open>Batches and their results\<close>

lemma chunks_nonempty: "b \<in> set (chunks p xs) \<Longrightarrow> b \<noteq> []"
proof (induction p xs rule: chunks.induct)
  case (1 p xs)
  from "1.prems" have ne: "\<not> (xs = [] \<or> p = 0)"
    by (subst (asm) chunks.simps) (auto split: if_splits)
  from "1.prems" ne have "b = take p xs \<or> b \<in> set (chunks p (drop p xs))"
    by (subst (asm) chunks.simps) auto
  with "1.IH" [OF ne] ne show ?case by auto
qed

lemma chunks_sizes:
  "0 < p \<Longrightarrow> xs \<noteq> [] \<Longrightarrow>
   (\<forall>b \<in> set (butlast (chunks p xs)). length b = p)
   \<and> chunks p xs \<noteq> [] \<and> 1 \<le> length (last (chunks p xs)) \<and> length (last (chunks p xs)) \<le> p"
proof (induction p xs rule: chunks.induct)
  case (1 p xs)
  have ne: "\<not> (xs = [] \<or> p = 0)" using "1.prems" by simp
  have unfold: "chunks p xs = take p xs # chunks p (drop p xs)"
    using ne by (subst chunks.simps) simp
  show ?case
  proof (cases "drop p xs = []")
    case True
    then have "chunks p (drop p xs) = []" by (subst chunks.simps) simp
    with unfold have "chunks p xs = [take p xs]" by simp
    moreover have "1 \<le> length (take p xs)" using "1.prems" by (cases xs) auto
    ultimately show ?thesis by simp
  next
    case False
    from "1.IH" [OF ne "1.prems"(1) False]
    have ih: "(\<forall>b \<in> set (butlast (chunks p (drop p xs))). length b = p)"
      "chunks p (drop p xs) \<noteq> []"
      "1 \<le> length (last (chunks p (drop p xs)))"
      "length (last (chunks p (drop p xs))) \<le> p"
      by simp_all
    have full: "length (take p xs) = p" using False by simp
    show ?thesis using ih full unfolding unfold by simp
  qed
qed

lemma attempts_snd: "map snd (attempts tp) = tp"
  by (simp add: attempts_def)

lemma attempts_length: "length (attempts tp) = length tp"
  by (simp add: attempts_def)

lemma attempts_nth: "i < length tp \<Longrightarrow> attempts tp ! i = (i, tp ! i)"
  by (simp add: attempts_def)

lemma processOne_meta: "meta (processOne net a) = snd a"
  by (simp add: processOne_def split: sum.splits)

lemma run_batch_count:
  "1 \<le> limit \<Longrightarrow> snd (run_batch net pick cb n limit batch c) = c + length batch"
proof -
  assume l: "1 \<le> limit"
  have inv: "take limit batch = [] \<Longrightarrow> drop limit batch = []" using l by (cases batch) auto
  show ?thesis
    unfolding run_batch_def Let_def snd_conv
    by (subst pool_loop_count [OF inv]) simp_all
qed

lemma run_batch_sleeps: "sleeps (fst (run_batch net pick cb n limit batch c)) = []"
  by (simp add: run_batch_def Let_def pool_loop_sleeps)

lemma run_batch_no_callback:
  "progress_calls (fst (run_batch net pick False n limit batch c)) = []"
  by (simp add: run_batch_def Let_def pool_loop_no_callback)

lemma run_batch_progress:
  assumes "1 \<le> limit"
  shows "map fst (progress_calls (fst (run_batch net pick True n limit batch c)))
           = [c + 1 ..< c + 1 + length batch]"
    and "\<forall>p \<in> set (progress_calls (fst (run_batch net pick True n limit batch c))). fst (snd p) = n"
    and "mset (map (\<lambda>p. snd (snd p)) (progress_calls (fst (run_batch net pick True n limit batch c))))
           = mset (map (processOne net) batch)"
proof -
  have inv: "take limit batch = [] \<Longrightarrow> drop limit batch = []" using assms by (cases batch) auto
  let ?P = "progress_calls (fst (pool_loop net pick True n (take limit batch) (drop limit batch) c))"
  have pl: "map fst ?P = [c + 1 ..< c + 1 + (length (take limit batch) + length (drop limit batch))]
      \<and> (\<forall>p \<in> set ?P. fst (snd p) = n)
      \<and> mset (map (\<lambda>p. snd (snd p)) ?P)
          = mset (map (processOne net) (take limit batch @ drop limit batch))"
    by (rule pool_loop_progress) (rule inv)
  have len: "length (take limit batch) + length (drop limit batch) = length batch"
    by (simp only: length_append [symmetric] append_take_drop_id)
  have unfold: "progress_calls (fst (run_batch net pick True n limit batch c)) = ?P"
    by (simp add: run_batch_def Let_def)
  show "map fst (progress_calls (fst (run_batch net pick True n limit batch c)))
           = [c + 1 ..< c + 1 + length batch]"
    using pl len unfolding unfold by simp
  show "\<forall>p \<in> set (progress_calls (fst (run_batch net pick True n limit batch c))). fst (snd p) = n"
    using pl unfolding unfold by blast
  show "mset (map (\<lambda>p. snd (snd p)) (progress_calls (fst (run_batch net pick True n limit batch c))))
           = mset (map (processOne net) batch)"
    using pl unfolding unfold by simp
qed

lemma run_batches_results:
  "fst (run_batches net pick cb n limit pd batches c) = map (processOne net) (concat batches)"
  by (induction batches arbitrary: c) (simp_all add: Let_def)

lemma run_batches_sleeps:
  "sleeps (snd (run_batches net pick cb n limit pd batches c))
     = (if pd > 0 then replicate (length batches - 1) pd else [])"
proof (induction batches arbitrary: c)
  case Nil
  show ?case by simp
next
  case (Cons b bs)
  show ?case
  proof (cases bs)
    case Nil
    then show ?thesis by (simp add: Let_def run_batch_sleeps)
  next
    case (Cons b' bs')
    have "sleeps (snd (run_batches net pick cb n limit pd (b # bs) c))
            = (if pd > 0 then [pd] else [])
              @ sleeps (snd (run_batches net pick cb n limit pd bs
                               (snd (run_batch net pick cb n limit b c))))"
      using Cons by (simp add: Let_def run_batch_sleeps)
    also have "\<dots> = (if pd > 0 then [pd] else [])
                        @ (if pd > 0 then replicate (length bs - 1) pd else [])"
      by (simp only: Cons.IH)
    also have "\<dots> = (if pd > 0 then replicate (length (b # bs) - 1) pd else [])"
      using Cons by simp
    finally show ?thesis .
  qed
qed

lemma run_batches_no_callback:
  "progress_calls (snd (run_batches net pick False n limit pd batches c)) = []"
proof (induction batches arbitrary: c)
  case Nil
  show ?case by simp
next
  case (Cons b bs)
  have "progress_calls (if bs \<noteq> [] \<and> 0 < pd then [Sleep pd] else []) = ([] :: (nat \<times> nat \<times> 'a TranscriptResult) list)"
    by simp
  then show ?case using Cons.IH by (simp add: Let_def run_batch_no_callback)
qed

lemma run_batches_progress:
  assumes "1 \<le> limit"
  shows "map fst (progress_calls (snd (run_batches net pick True n limit pd batches c)))
           = [c + 1 ..< c + 1 + length (concat batches)]
       \<and> (\<forall>p \<in> set (progress_calls (snd (run_batches net pick True n limit pd batches c))). fst (snd p) = n)
       \<and> mset (map (\<lambda>p. snd (snd p)) (progress_calls (snd (run_batches net pick True n limit pd batches c))))
           = mset (map (processOne net) (concat batches))"
proof (induction batches arbitrary: c)
  case Nil
  show ?case by simp
next
  case (Cons b bs)
  let ?c' = "snd (run_batch net pick True n limit b c)"
  let ?first = "progress_calls (fst (run_batch net pick True n limit b c))"
  let ?rest = "progress_calls (snd (run_batches net pick True n limit pd bs ?c'))"
  have c': "?c' = c + length b" by (rule run_batch_count [OF assms])
  have pause: "progress_calls (if bs \<noteq> [] \<and> 0 < pd then [Sleep pd] else []) = ([] :: (nat \<times> nat \<times> 'a TranscriptResult) list)"
    by simp
  have unfold: "progress_calls (snd (run_batches net pick True n limit pd (b # bs) c)) = ?first @ ?rest"
    using pause by (simp add: Let_def)
  note rb = run_batch_progress [OF assms, of net pick n b c]
  note ih = Cons.IH [of ?c']
  have "[c + 1 ..< c + 1 + length b + length (concat bs)]
          = [c + 1 ..< c + 1 + length b] @ [c + 1 + length b ..< c + 1 + length b + length (concat bs)]"
    by (rule upt_add_eq_append) simp
  moreover have "c + 1 + length (concat (b # bs)) = c + 1 + length b + length (concat bs)"
    by simp
  moreover have "?c' + 1 = c + 1 + length b" using c' by simp
  moreover have "map fst (?first @ ?rest) = map fst ?first @ map fst ?rest" by simp
  ultimately have a: "map fst (?first @ ?rest) = [c + 1 ..< c + 1 + length (concat (b # bs))]"
    using rb(1) ih by (simp only:)
  have b: "\<forall>p \<in> set (?first @ ?rest). fst (snd p) = n"
    using rb(2) ih by auto
  have d: "mset (map (\<lambda>p. snd (snd p)) (?first @ ?rest)) = mset (map (processOne net) (concat (b # bs)))"
    using rb(3) ih by simp
  show ?case unfolding unfold using a b d by blast
qed


subsection \<open>Running both modes\<close>

lemma yields_append [simp]: "yields (xs @ ys) = yields xs @ yields ys"
  by (induction xs rule: yields.induct) auto

lemma stream_loop_yields:
  "yields (stream_loop net pa pd as pib) = map (processOne net) as"
  by (induction as arbitrary: pib) (simp_all add: Let_def processOne_def)

lemma stream_loop_no_callback: "progress_calls (stream_loop net pa pd as pib) = []"
  by (induction as arbitrary: pib) (simp_all add: Let_def)

lemma stream_loop_in_flight: "in_flight_max (stream_loop net pa pd as pib) 0 \<le> 1"
  by (induction as arbitrary: pib) (simp_all add: Let_def)

lemma processVideos_run:
  assumes tp: "toProcess_of videos (or_default (skipIds options) {}) \<noteq> []"
    and c: "1 \<le> or_default (concurrency options) DEFAULT_CONCURRENCY"
    and pa: "1 \<le> or_default (pauseAfter options) DEFAULT_PAUSE_AFTER"
  shows "processVideos net pick videos options =
           Some (Inr (run_batches net pick (onProgress options)
                        (length (toProcess_of videos (or_default (skipIds options) {})))
                        (nat (or_default (concurrency options) DEFAULT_CONCURRENCY))
                        (or_default (pauseDuration options) DEFAULT_PAUSE_DURATION)
                        (chunks (nat (or_default (pauseAfter options) DEFAULT_PAUSE_AFTER))
                           (attempts (toProcess_of videos (or_default (skipIds options) {}))))
                        0))"
proof -
  have mb: "make_batches (attempts (toProcess_of videos (or_default (skipIds options) {})))
              (or_default (pauseAfter options) DEFAULT_PAUSE_AFTER) 0 []
            = Some (chunks (nat (or_default (pauseAfter options) DEFAULT_PAUSE_AFTER))
                      (attempts (toProcess_of videos (or_default (skipIds options) {}))))"
    using make_batches_pos [OF pa, of 0
        "attempts (toProcess_of videos (or_default (skipIds options) {}))" "[]"] by simp
  show ?thesis
    using tp c by (simp add: processVideos_def Let_def pLimit_def mb)
qed

lemma processVideos_results:
  assumes c: "1 \<le> or_default (concurrency options) DEFAULT_CONCURRENCY"
    and pa: "1 \<le> or_default (pauseAfter options) DEFAULT_PAUSE_AFTER"
  shows "\<exists>events. processVideos net pick videos options =
           Some (Inr (map (processOne net)
                        (attempts (toProcess_of videos (or_default (skipIds options) {}))),
                      events))"
proof (cases "toProcess_of videos (or_default (skipIds options) {}) = []")
  case True
  then show ?thesis by (simp add: processVideos_def attempts_def)
next
  case False
  have pos: "0 < nat (or_default (pauseAfter options) DEFAULT_PAUSE_AFTER)" using pa by simp
  show ?thesis
    unfolding processVideos_run [OF False c pa]
    by (intro exI [of _ "snd (run_batches net pick (onProgress options) _ _ _ _ 0)"])
       (simp add: prod_eq_iff run_batches_results concat_chunks [OF pos])
qed

lemma streamVideos_run:
  assumes c: "1 \<le> or_default (concurrency options) DEFAULT_CONCURRENCY"
  shows "streamVideos net videos options =
           Inr (stream_loop net (or_default (pauseAfter options) DEFAULT_PAUSE_AFTER)
                  (or_default (pauseDuration options) DEFAULT_PAUSE_DURATION)
                  (attempts (toProcess_of videos (or_default (skipIds options) {}))) 0)"
  using c by (simp add: streamVideos_def Let_def pLimit_def attempts_def)

subsection \<open>Completeness of collect mode\<close>

text \<open>
  C1. For every candidate list and every set of identifiers to skip, \<open>processVideos\<close>
  resolves to exactly one result per candidate whose \<open>videoId\<close> is not skipped, in the
  order of the candidates, however the individual fetches settle and in whatever order
  they complete; when no candidate remains it resolves to the empty list. The options
  are any with a concurrency and a \<open>pauseAfter\<close> of at least one (their defaults are).
\<close>

theorem processVideos_complete:
  "(toProcess_of videos (or_default (skipIds options) {}) = [] \<longrightarrow>
      processVideos net pick videos options = Some (Inr ([], [])))
   \<and> (1 \<le> or_default (concurrency options) DEFAULT_CONCURRENCY
        \<and> 1 \<le> or_default (pauseAfter options) DEFAULT_PAUSE_AFTER \<longrightarrow>
      (\<exists>results events.
          processVideos net pick videos options = Some (Inr (results, events))
          \<and> map meta results
              = filter (\<lambda>v. videoId v \<notin> or_default (skipIds options) {}) videos))"
proof (intro conjI impI)
  assume "toProcess_of videos (or_default (skipIds options) {}) = []"
  then show "processVideos net pick videos options = Some (Inr ([], []))"
    by (simp add: processVideos_def)
next
  assume valid: "1 \<le> or_default (concurrency options) DEFAULT_CONCURRENCY
        \<and> 1 \<le> or_default (pauseAfter options) DEFAULT_PAUSE_AFTER"
  then obtain events where run: "processVideos net pick videos options =
      Some (Inr (map (processOne net)
                   (attempts (toProcess_of videos (or_default (skipIds options) {}))), events))"
    using processVideos_results by blast
  have "map meta (map (processOne net)
                   (attempts (toProcess_of videos (or_default (skipIds options) {}))))
          = map snd (attempts (toProcess_of videos (or_default (skipIds options) {})))"
    by (simp add: processOne_meta)
  also have "\<dots> = filter (\<lambda>v. videoId v \<notin> or_default (skipIds options) {}) videos"
    by (simp only: attempts_snd toProcess_of_def)
  finally show "\<exists>results events.
          processVideos net pick videos options = Some (Inr (results, events))
          \<and> map meta results
              = filter (\<lambda>v. videoId v \<notin> or_default (skipIds options) {}) videos"
    using run by blast
qed

theorem processVideos_complete_witness:
  "toProcess_of [manual_video ''ccccccccccc''] (or_default (skipIds (options_with None None None (Some {''ccccccccccc''}) False)) {}) = []
   \<and> processVideos example_net (\<lambda>n. n) [manual_video ''ccccccccccc'']
        (options_with None None None (Some {''ccccccccccc''}) False) = Some (Inr ([], []))
   \<and> 1 \<le> or_default (concurrency (options_with (Some 2) (Some 1) None (Some {''ccccccccccc''}) False)) DEFAULT_CONCURRENCY
   \<and> 1 \<le> or_default (pauseAfter (options_with (Some 2) (Some 1) None (Some {''ccccccccccc''}) False)) DEFAULT_PAUSE_AFTER
   \<and> (\<exists>results events.
          processVideos example_net (\<lambda>n. n)
            [manual_video ''aaaaaaaaaaa'', manual_video ''ccccccccccc'', manual_video ''bbbbbbbbbbb'']
            (options_with (Some 2) (Some 1) None (Some {''ccccccccccc''}) False)
            = Some (Inr (results, events))
          \<and> map meta results = [manual_video ''aaaaaaaaaaa'', manual_video ''bbbbbbbbbbb''])"
  using processVideos_complete [of "[manual_video ''ccccccccccc'']"
          "options_with None None None (Some {''ccccccccccc''}) False" example_net "\<lambda>n. n"]
        processVideos_complete [of
          "[manual_video ''aaaaaaaaaaa'', manual_video ''ccccccccccc'', manual_video ''bbbbbbbbbbb'']"
          "options_with (Some 2) (Some 1) None (Some {''ccccccccccc''}) False" example_net "\<lambda>n. n"]
  by (simp add: toProcess_of_def or_default_def options_with_def manual_video_def)


lemma chunks_bounded: "b \<in> set (chunks p xs) \<Longrightarrow> length b \<le> p"
proof (induction p xs rule: chunks.induct)
  case (1 p xs)
  from "1.prems" have ne: "\<not> (xs = [] \<or> p = 0)"
    by (subst (asm) chunks.simps) (auto split: if_splits)
  from "1.prems" ne have "b = take p xs \<or> b \<in> set (chunks p (drop p xs))"
    by (subst (asm) chunks.simps) auto
  with "1.IH" [OF ne] show ?case by auto
qed

lemma chunks_butlast_full: "0 < p \<Longrightarrow> b \<in> set (butlast (chunks p xs)) \<Longrightarrow> length b = p"
proof (cases "xs = []")
  case True
  assume "b \<in> set (butlast (chunks p xs))"
  with True show ?thesis by (subst (asm) chunks.simps) simp
next
  case False
  assume "0 < p" "b \<in> set (butlast (chunks p xs))"
  with chunks_sizes [OF \<open>0 < p\<close> False] show ?thesis by blast
qed

lemma processVideos_stuck:
  assumes tp: "toProcess_of videos (or_default (skipIds options) {}) \<noteq> []"
    and c: "1 \<le> or_default (concurrency options) DEFAULT_CONCURRENCY"
    and pa: "or_default (pauseAfter options) DEFAULT_PAUSE_AFTER \<le> 0"
  shows "processVideos net pick videos options = None"
proof -
  let ?as = "attempts (toProcess_of videos (or_default (skipIds options) {}))"
  have "0 < int (length ?as)" using tp by (simp add: attempts_length)
  then have "make_batches ?as (or_default (pauseAfter options) DEFAULT_PAUSE_AFTER) 0 [] = None"
    using make_batches_stuck [of ?as _ 0 "[]", OF _ pa] by (cases "make_batches ?as (or_default (pauseAfter options) DEFAULT_PAUSE_AFTER) 0 []") auto
  then show ?thesis using tp c by (simp add: processVideos_def Let_def pLimit_def)
qed

lemma processVideos_returns:
  assumes pa: "1 \<le> or_default (pauseAfter options) DEFAULT_PAUSE_AFTER"
  shows "processVideos net pick videos options \<noteq> None"
proof -
  have "make_batches (attempts (toProcess_of videos (or_default (skipIds options) {})))
              (or_default (pauseAfter options) DEFAULT_PAUSE_AFTER) 0 [] \<noteq> None"
    using make_batches_pos [OF pa, of 0
        "attempts (toProcess_of videos (or_default (skipIds options) {}))" "[]"] by simp
  then show ?thesis
    by (auto simp: processVideos_def Let_def split: sum.splits option.splits)
qed

subsection \<open>Termination and the batch partition\<close>

text \<open>
  C9, as amended. Whenever \<open>pauseAfter\<close> is at least one, \<open>processVideos\<close> terminates and
  its partitioning loop returns batches that cover the candidates not skipped exactly
  once and in input order, every batch but the last of \<open>pauseAfter\<close> elements and none empty
  or larger. With \<open>pauseAfter = 0\<close>, a valid concurrency and at least one candidate not
  skipped, the loop does not advance and the call never returns. (With no candidate left
  the call returns before the loop, whatever \<open>pauseAfter\<close> is.)
\<close>

theorem processVideos_terminates_and_partitions:
  "(1 \<le> or_default (pauseAfter options) DEFAULT_PAUSE_AFTER \<longrightarrow>
      processVideos net pick videos options \<noteq> None
      \<and> (\<exists>batches.
            make_batches (attempts (toProcess_of videos (or_default (skipIds options) {})))
              (or_default (pauseAfter options) DEFAULT_PAUSE_AFTER) 0 [] = Some batches
            \<and> map snd (concat batches) = toProcess_of videos (or_default (skipIds options) {})
            \<and> (\<forall>b \<in> set (butlast batches).
                  int (length b) = or_default (pauseAfter options) DEFAULT_PAUSE_AFTER)
            \<and> (\<forall>b \<in> set batches.
                  b \<noteq> [] \<and> int (length b) \<le> or_default (pauseAfter options) DEFAULT_PAUSE_AFTER)))
   \<and> (or_default (pauseAfter options) DEFAULT_PAUSE_AFTER = 0
        \<and> 1 \<le> or_default (concurrency options) DEFAULT_CONCURRENCY
        \<and> toProcess_of videos (or_default (skipIds options) {}) \<noteq> [] \<longrightarrow>
      processVideos net pick videos options = None)"
proof (intro conjI impI)
  assume pa: "1 \<le> or_default (pauseAfter options) DEFAULT_PAUSE_AFTER"
  let ?pa = "or_default (pauseAfter options) DEFAULT_PAUSE_AFTER"
  let ?as = "attempts (toProcess_of videos (or_default (skipIds options) {}))"
  show "processVideos net pick videos options \<noteq> None"
    by (rule processVideos_returns [OF pa])
  have pos: "0 < nat ?pa" using pa by simp
  have mb: "make_batches ?as ?pa 0 [] = Some (chunks (nat ?pa) ?as)"
    using make_batches_pos [OF pa, of 0 ?as "[]"] by simp
  have cover: "map snd (concat (chunks (nat ?pa) ?as))
                 = toProcess_of videos (or_default (skipIds options) {})"
    by (simp only: concat_chunks [OF pos] attempts_snd)
  have full: "\<forall>b \<in> set (butlast (chunks (nat ?pa) ?as)). int (length b) = ?pa"
    using chunks_butlast_full [OF pos] pa by fastforce
  have bounded: "\<forall>b \<in> set (chunks (nat ?pa) ?as). b \<noteq> [] \<and> int (length b) \<le> ?pa"
    using chunks_nonempty chunks_bounded pa by fastforce
  show "\<exists>batches. make_batches ?as ?pa 0 [] = Some batches
            \<and> map snd (concat batches) = toProcess_of videos (or_default (skipIds options) {})
            \<and> (\<forall>b \<in> set (butlast batches). int (length b) = ?pa)
            \<and> (\<forall>b \<in> set batches. b \<noteq> [] \<and> int (length b) \<le> ?pa)"
    using mb cover full bounded by blast
next
  assume "or_default (pauseAfter options) DEFAULT_PAUSE_AFTER = 0
        \<and> 1 \<le> or_default (concurrency options) DEFAULT_CONCURRENCY
        \<and> toProcess_of videos (or_default (skipIds options) {}) \<noteq> []"
  then show "processVideos net pick videos options = None"
    using processVideos_stuck [of videos options net pick] by simp
qed

theorem processVideos_terminates_and_partitions_witness:
  "1 \<le> or_default (pauseAfter (options_with None (Some 2) None None False)) DEFAULT_PAUSE_AFTER
   \<and> processVideos example_net (\<lambda>n. n)
        [manual_video ''aaaaaaaaaaa'', manual_video ''bbbbbbbbbbb'', manual_video ''ccccccccccc'']
        (options_with None (Some 2) None None False) \<noteq> None
   \<and> or_default (pauseAfter (options_with None (Some 0) None None False)) DEFAULT_PAUSE_AFTER = 0
   \<and> 1 \<le> or_default (concurrency (options_with None (Some 0) None None False)) DEFAULT_CONCURRENCY
   \<and> toProcess_of [manual_video ''aaaaaaaaaaa'']
        (or_default (skipIds (options_with None (Some 0) None None False)) {}) \<noteq> []
   \<and> processVideos example_net (\<lambda>n. n) [manual_video ''aaaaaaaaaaa'']
        (options_with None (Some 0) None None False) = None"
  using processVideos_terminates_and_partitions [of
          "options_with None (Some 2) None None False" example_net "\<lambda>n. n"
          "[manual_video ''aaaaaaaaaaa'', manual_video ''bbbbbbbbbbb'', manual_video ''ccccccccccc'']"]
        processVideos_terminates_and_partitions [of
          "options_with None (Some 0) None None False" example_net "\<lambda>n. n"
          "[manual_video ''aaaaaaaaaaa'']"]
  by (simp add: toProcess_of_def or_default_def options_with_def DEFAULT_CONCURRENCY_def)

text \<open>
  The claim as first stated had the call never return for \<open>pauseAfter = 0\<close> on every
  candidate list; on the empty list it returns.
\<close>

theorem processVideos_pauseAfter_zero_returns:
  "or_default (pauseAfter (options_with None (Some 0) None None False)) DEFAULT_PAUSE_AFTER = 0
   \<and> processVideos example_net (\<lambda>n. n) [] (options_with None (Some 0) None None False)
       = Some (Inr ([], []))"
  by (simp add: processVideos_def toProcess_of_def or_default_def options_with_def)


lemma processOne_failure:
  "net k (videoId m) = Inl e \<Longrightarrow>
   processOne net (k, m) =
     \<lparr>meta = m, transcript = None,
      error = Some (case e of Error_obj message \<Rightarrow> message | Non_error \<Rightarrow> ''Unknown error'')\<rparr>"
  by (simp add: processOne_def)

lemma processOne_attempt_failure:
  assumes "i < length tp" and "net i (videoId (tp ! i)) = Inl e"
  shows "map (processOne net) (attempts tp) ! i =
     \<lparr>meta = tp ! i, transcript = None,
      error = Some (case e of Error_obj message \<Rightarrow> message | Non_error \<Rightarrow> ''Unknown error'')\<rparr>"
  using assms by (simp add: attempts_length attempts_nth processOne_failure)

subsection \<open>Failures of single attempts\<close>

text \<open>
  C2. A rejection of \<open>fetchTranscript\<close> is caught by \<open>processOne\<close> and turned into a result
  whose transcript is null and whose error is the message of the \<open>Error\<close> thrown (the text
  \<open>Unknown error\<close> for a thrown value that is no \<open>Error\<close>). In collect mode and in stream
  mode alike the run still delivers one result per candidate not skipped, the failed
  attempts among them in this form: no outcome of a fetch makes either mode reject.
\<close>

theorem fetch_failure_becomes_result:
  "(\<forall>e. net k (videoId m) = Inl e \<longrightarrow>
      processOne net (k, m) =
        \<lparr>meta = m, transcript = None,
         error = Some (case e of Error_obj message \<Rightarrow> message | Non_error \<Rightarrow> ''Unknown error'')\<rparr>)
   \<and> (1 \<le> or_default (concurrency options) DEFAULT_CONCURRENCY
        \<and> 1 \<le> or_default (pauseAfter options) DEFAULT_PAUSE_AFTER \<longrightarrow>
      (\<exists>results events.
          processVideos net pick videos options = Some (Inr (results, events))
          \<and> length results = length (toProcess_of videos (or_default (skipIds options) {}))
          \<and> (\<forall>i e. i < length results
                \<and> net i (videoId (toProcess_of videos (or_default (skipIds options) {}) ! i)) = Inl e \<longrightarrow>
                results ! i =
                  \<lparr>meta = toProcess_of videos (or_default (skipIds options) {}) ! i,
                   transcript = None,
                   error = Some (case e of Error_obj message \<Rightarrow> message
                                 | Non_error \<Rightarrow> ''Unknown error'')\<rparr>)))
   \<and> (1 \<le> or_default (concurrency options) DEFAULT_CONCURRENCY \<longrightarrow>
      (\<exists>events.
          streamVideos net videos options = Inr events
          \<and> length (yields events) = length (toProcess_of videos (or_default (skipIds options) {}))
          \<and> (\<forall>i e. i < length (yields events)
                \<and> net i (videoId (toProcess_of videos (or_default (skipIds options) {}) ! i)) = Inl e \<longrightarrow>
                yields events ! i =
                  \<lparr>meta = toProcess_of videos (or_default (skipIds options) {}) ! i,
                   transcript = None,
                   error = Some (case e of Error_obj message \<Rightarrow> message
                                 | Non_error \<Rightarrow> ''Unknown error'')\<rparr>)))"
proof (intro conjI impI allI)
  fix e
  assume "net k (videoId m) = Inl e"
  then show "processOne net (k, m) =
        \<lparr>meta = m, transcript = None,
         error = Some (case e of Error_obj message \<Rightarrow> message | Non_error \<Rightarrow> ''Unknown error'')\<rparr>"
    by (rule processOne_failure)
next
  let ?tp = "toProcess_of videos (or_default (skipIds options) {})"
  assume "1 \<le> or_default (concurrency options) DEFAULT_CONCURRENCY
        \<and> 1 \<le> or_default (pauseAfter options) DEFAULT_PAUSE_AFTER"
  then obtain events where run: "processVideos net pick videos options =
      Some (Inr (map (processOne net) (attempts ?tp), events))"
    using processVideos_results by blast
  have len: "length (map (processOne net) (attempts ?tp)) = length ?tp"
    by (simp add: attempts_length)
  have "\<forall>i e. i < length (map (processOne net) (attempts ?tp))
            \<and> net i (videoId (?tp ! i)) = Inl e \<longrightarrow>
          map (processOne net) (attempts ?tp) ! i =
            \<lparr>meta = ?tp ! i, transcript = None,
             error = Some (case e of Error_obj message \<Rightarrow> message
                           | Non_error \<Rightarrow> ''Unknown error'')\<rparr>"
    using processOne_attempt_failure len by metis
  with run len show "\<exists>results events.
          processVideos net pick videos options = Some (Inr (results, events))
          \<and> length results = length ?tp
          \<and> (\<forall>i e. i < length results \<and> net i (videoId (?tp ! i)) = Inl e \<longrightarrow>
                results ! i =
                  \<lparr>meta = ?tp ! i, transcript = None,
                   error = Some (case e of Error_obj message \<Rightarrow> message
                                 | Non_error \<Rightarrow> ''Unknown error'')\<rparr>)"
    by blast
next
  let ?tp = "toProcess_of videos (or_default (skipIds options) {})"
  let ?events = "stream_loop net (or_default (pauseAfter options) DEFAULT_PAUSE_AFTER)
                  (or_default (pauseDuration options) DEFAULT_PAUSE_DURATION) (attempts ?tp) 0"
  assume c: "1 \<le> or_default (concurrency options) DEFAULT_CONCURRENCY"
  have run: "streamVideos net videos options = Inr ?events"
    by (rule streamVideos_run [OF c])
  have ys: "yields ?events = map (processOne net) (attempts ?tp)"
    by (rule stream_loop_yields)
  have len: "length (yields ?events) = length ?tp"
    by (simp add: ys attempts_length)
  have "\<forall>i e. i < length (yields ?events) \<and> net i (videoId (?tp ! i)) = Inl e \<longrightarrow>
          yields ?events ! i =
            \<lparr>meta = ?tp ! i, transcript = None,
             error = Some (case e of Error_obj message \<Rightarrow> message
                           | Non_error \<Rightarrow> ''Unknown error'')\<rparr>"
    using processOne_attempt_failure len unfolding ys by metis
  with run len show "\<exists>events.
          streamVideos net videos options = Inr events
          \<and> length (yields events) = length ?tp
          \<and> (\<forall>i e. i < length (yields events) \<and> net i (videoId (?tp ! i)) = Inl e \<longrightarrow>
                yields events ! i =
                  \<lparr>meta = ?tp ! i, transcript = None,
                   error = Some (case e of Error_obj message \<Rightarrow> message
                                 | Non_error \<Rightarrow> ''Unknown error'')\<rparr>)"
    by blast
qed

theorem fetch_failure_becomes_result_witness:
  "example_net 1 (videoId (manual_video ''bbbbbbbbbbb'')) = Inl (Error_obj ''HTTP 429'')
   \<and> processOne example_net (1, manual_video ''bbbbbbbbbbb'') =
        \<lparr>meta = manual_video ''bbbbbbbbbbb'', transcript = None, error = Some ''HTTP 429''\<rparr>
   \<and> 1 \<le> or_default (concurrency (options_with None None None None False)) DEFAULT_CONCURRENCY
   \<and> 1 \<le> or_default (pauseAfter (options_with None None None None False)) DEFAULT_PAUSE_AFTER
   \<and> (\<exists>results events.
          processVideos example_net (\<lambda>n. n)
            [manual_video ''aaaaaaaaaaa'', manual_video ''bbbbbbbbbbb'']
            (options_with None None None None False) = Some (Inr (results, events))
          \<and> length results = 2
          \<and> results ! 1 =
               \<lparr>meta = manual_video ''bbbbbbbbbbb'', transcript = None, error = Some ''HTTP 429''\<rparr>)
   \<and> (\<exists>events.
          streamVideos example_net
            [manual_video ''aaaaaaaaaaa'', manual_video ''bbbbbbbbbbb'']
            (options_with None None None None False) = Inr events
          \<and> length (yields events) = 2
          \<and> yields events ! 1 =
               \<lparr>meta = manual_video ''bbbbbbbbbbb'', transcript = None, error = Some ''HTTP 429''\<rparr>)"
proof -
  let ?vs = "[manual_video ''aaaaaaaaaaa'', manual_video ''bbbbbbbbbbb'']"
  let ?o = "options_with None None None None False"
  have tp: "toProcess_of ?vs (or_default (skipIds ?o) {}) = ?vs"
    by (simp add: toProcess_of_def or_default_def options_with_def)
  have c: "1 \<le> or_default (concurrency ?o) DEFAULT_CONCURRENCY"
    and pa: "1 \<le> or_default (pauseAfter ?o) DEFAULT_PAUSE_AFTER"
    by (simp_all add: or_default_def options_with_def DEFAULT_CONCURRENCY_def DEFAULT_PAUSE_AFTER_def)
  have f: "example_net 1 (videoId (manual_video ''bbbbbbbbbbb'')) = Inl (Error_obj ''HTTP 429'')"
    by (simp add: example_net_def manual_video_def)
  note t = fetch_failure_becomes_result [of example_net 1 "manual_video ''bbbbbbbbbbb''" ?o "\<lambda>n. n" ?vs]
  from t f have one: "processOne example_net (1, manual_video ''bbbbbbbbbbb'') =
        \<lparr>meta = manual_video ''bbbbbbbbbbb'', transcript = None, error = Some ''HTTP 429''\<rparr>"
    by simp
  from t c pa obtain results events where
    run: "processVideos example_net (\<lambda>n. n) ?vs ?o = Some (Inr (results, events))"
    and len: "length results = length (toProcess_of ?vs (or_default (skipIds ?o) {}))"
    and fail: "\<forall>i e. i < length results
                \<and> example_net i (videoId (toProcess_of ?vs (or_default (skipIds ?o) {}) ! i)) = Inl e \<longrightarrow>
                results ! i =
                  \<lparr>meta = toProcess_of ?vs (or_default (skipIds ?o) {}) ! i,
                   transcript = None,
                   error = Some (case e of Error_obj message \<Rightarrow> message
                                 | Non_error \<Rightarrow> ''Unknown error'')\<rparr>"
    by blast
  from len have len2: "length results = 2" by (simp add: tp)
  from fail [rule_format, of 1 "Error_obj ''HTTP 429''"] f len2
  have r1: "results ! 1 =
      \<lparr>meta = manual_video ''bbbbbbbbbbb'', transcript = None, error = Some ''HTTP 429''\<rparr>"
    by (simp add: tp)
  from t c obtain sevents where
    srun: "streamVideos example_net ?vs ?o = Inr sevents"
    and slen: "length (yields sevents) = length (toProcess_of ?vs (or_default (skipIds ?o) {}))"
    and sfail: "\<forall>i e. i < length (yields sevents)
                \<and> example_net i (videoId (toProcess_of ?vs (or_default (skipIds ?o) {}) ! i)) = Inl e \<longrightarrow>
                yields sevents ! i =
                  \<lparr>meta = toProcess_of ?vs (or_default (skipIds ?o) {}) ! i,
                   transcript = None,
                   error = Some (case e of Error_obj message \<Rightarrow> message
                                 | Non_error \<Rightarrow> ''Unknown error'')\<rparr>"
    by blast
  from slen have slen2: "length (yields sevents) = 2" by (simp add: tp)
  from sfail [rule_format, of 1 "Error_obj ''HTTP 429''"] f slen2
  have s1: "yields sevents ! 1 =
      \<lparr>meta = manual_video ''bbbbbbbbbbb'', transcript = None, error = Some ''HTTP 429''\<rparr>"
    by (simp add: tp)
  show ?thesis using f one c pa run len2 r1 srun slen2 s1 by blast
qed


lemma stream_loop_sleeps:
  "1 \<le> pa \<Longrightarrow> 0 \<le> pib \<Longrightarrow> pib < pa \<Longrightarrow>
   sleeps (stream_loop net pa pd as pib)
     = (if pd > 0 then replicate (nat ((int (length as) + pib) div pa)) pd else [])"
proof (induction as arbitrary: pib)
  case Nil
  then show ?case by simp
next
  case (Cons a as)
  show ?case
  proof (cases "pib + 1 \<ge> pa")
    case True
    with Cons.prems have eq: "pib + 1 = pa" by simp
    have "int (length (a # as)) + pib = int (length as) + pa"
      using eq by simp
    then have "(int (length (a # as)) + pib) div pa = (int (length as) + pa) div pa"
      by (simp only:)
    also have "\<dots> = int (length as) div pa + 1"
    proof -
      have "pa \<noteq> 0" using Cons.prems by simp
      then show ?thesis by (rule div_add_self2)
    qed
    finally have d: "nat ((int (length (a # as)) + pib) div pa) = Suc (nat (int (length as) div pa))"
      using Cons.prems by (simp add: nat_add_distrib pos_imp_zdiv_nonneg_iff)
    have ih: "sleeps (stream_loop net pa pd as 0)
                = (if pd > 0 then replicate (nat ((int (length as) + 0) div pa)) pd else [])"
      using Cons.prems by (intro Cons.IH) simp_all
    show ?thesis using True ih d by (simp add: Let_def)
  next
    case False
    have ih: "sleeps (stream_loop net pa pd as (pib + 1))
                = (if pd > 0 then replicate (nat ((int (length as) + (pib + 1)) div pa)) pd else [])"
      using Cons.prems False by (intro Cons.IH) simp_all
    have "int (length (a # as)) + pib = int (length as) + (pib + 1)" by simp
    then have d: "nat ((int (length (a # as)) + pib) div pa)
                    = nat ((int (length as) + (pib + 1)) div pa)"
      by (simp only:)
    have "sleeps (stream_loop net pa pd (a # as) pib) = sleeps (stream_loop net pa pd as (pib + 1))"
      using False by (simp add: Let_def)
    then show ?thesis by (simp only: ih d)
  qed
qed

lemma processVideos_sleeps:
  assumes tp: "toProcess_of videos (or_default (skipIds options) {}) \<noteq> []"
    and c: "1 \<le> or_default (concurrency options) DEFAULT_CONCURRENCY"
    and pa: "1 \<le> or_default (pauseAfter options) DEFAULT_PAUSE_AFTER"
    and run: "processVideos net pick videos options = Some (Inr (results, events))"
  shows "sleeps events =
           (if or_default (pauseDuration options) DEFAULT_PAUSE_DURATION > 0
            then replicate
                   (length (chunks (nat (or_default (pauseAfter options) DEFAULT_PAUSE_AFTER))
                              (attempts (toProcess_of videos (or_default (skipIds options) {})))) - 1)
                   (or_default (pauseDuration options) DEFAULT_PAUSE_DURATION)
            else [])"
proof -
  from run have "events = snd (run_batches net pick (onProgress options)
                        (length (toProcess_of videos (or_default (skipIds options) {})))
                        (nat (or_default (concurrency options) DEFAULT_CONCURRENCY))
                        (or_default (pauseDuration options) DEFAULT_PAUSE_DURATION)
                        (chunks (nat (or_default (pauseAfter options) DEFAULT_PAUSE_AFTER))
                           (attempts (toProcess_of videos (or_default (skipIds options) {}))))
                        0)"
    unfolding processVideos_run [OF tp c pa] by (simp add: prod_eq_iff)
  then show ?thesis by (simp only: run_batches_sleeps)
qed

subsection \<open>Stream mode runs one attempt at a time\<close>

text \<open>
  C4. In stream mode each result is yielded as soon as its attempt completes, but the
  loop awaits every attempt before it submits the next one to the limiter: with a
  concurrency of two and two candidates the second attempt is dispatched only after the
  first has completed and been yielded. Never more than one attempt is in flight and
  the results come in input order.
\<close>

theorem streamVideos_sequential:
  "streamVideos example_net [manual_video ''aaaaaaaaaaa'', manual_video ''ccccccccccc'']
     (options_with (Some 2) None None None False)
   = Inr [Dispatch 0, Complete 0,
          Yield \<lparr>meta = manual_video ''aaaaaaaaaaa'', transcript = Some 0, error = None\<rparr>,
          Dispatch 1, Complete 1,
          Yield \<lparr>meta = manual_video ''ccccccccccc'', transcript = Some 1, error = None\<rparr>]
   \<and> in_flight_max
        [Dispatch 0, Complete 0,
         Yield \<lparr>meta = manual_video ''aaaaaaaaaaa'', transcript = Some (0::nat), error = None\<rparr>,
         Dispatch 1, Complete 1,
         Yield \<lparr>meta = manual_video ''ccccccccccc'', transcript = Some 1, error = None\<rparr>] 0 = 1"
  by (simp add: streamVideos_def toProcess_of_def or_default_def options_with_def pLimit_def
      attempts_def manual_video_def example_net_def Let_def
      DEFAULT_PAUSE_AFTER_def DEFAULT_PAUSE_DURATION_def upt_rec)

subsection \<open>Pauses\<close>

text \<open>
  C5. With \<open>pauseAfter = 2\<close>, \<open>pauseDuration = 100\<close> and two candidates there is a single
  batch, which is the last one. Collect mode does not sleep after it; stream mode
  sleeps the 100 ms after the second result before the generator finishes.
\<close>

theorem streamVideos_pauses_after_last_batch:
  "streamVideos example_net [manual_video ''aaaaaaaaaaa'', manual_video ''ccccccccccc'']
     (options_with None (Some 2) (Some 100) None False)
   = Inr [Dispatch 0, Complete 0,
          Yield \<lparr>meta = manual_video ''aaaaaaaaaaa'', transcript = Some 0, error = None\<rparr>,
          Dispatch 1, Complete 1,
          Yield \<lparr>meta = manual_video ''ccccccccccc'', transcript = Some 1, error = None\<rparr>,
          Sleep 100]
   \<and> processVideos example_net (\<lambda>n. n) [manual_video ''aaaaaaaaaaa'', manual_video ''ccccccccccc'']
     (options_with None (Some 2) (Some 100) None False)
   = Some (Inr ([\<lparr>meta = manual_video ''aaaaaaaaaaa'', transcript = Some 0, error = None\<rparr>,
                 \<lparr>meta = manual_video ''ccccccccccc'', transcript = Some 1, error = None\<rparr>],
                [Dispatch 0, Dispatch 1, Complete 0, Complete 1]))"
  by code_simp


subsection \<open>The progress callback\<close>

lemma completions_append [simp]: "completions (xs @ ys) = completions xs @ completions ys"
  by (induction xs rule: completions.induct) auto

lemma completions_Dispatch [simp]: "completions (map (\<lambda>s. Dispatch (f s)) xs) = []"
  by (induction xs) auto

lemma callbacks_in_order_append:
  "callbacks_in_order net n c (xs @ ys)
     = callbacks_in_order net n c xs @ callbacks_in_order net n (c + length xs) ys"
  by (induction xs arbitrary: c) simp_all

lemma pool_loop_trace:
  "(active = [] \<Longrightarrow> queue = []) \<Longrightarrow>
   \<exists>order. mset order = mset (active @ queue)
     \<and> completions (fst (pool_loop net pick True n active queue c))
         = callbacks_in_order net n c order"
proof (induction net pick "True" n active queue c rule: pool_loop.induct)
  case (1 net pick n active queue c)
  show ?case
  proof (cases "active = []")
    case True
    with 1(2) have "completions (fst (pool_loop net pick True n active queue c))
                      = callbacks_in_order net n c []"
      by (subst pool_loop.simps) simp
    with True 1(2) show ?thesis by (intro exI [of _ "[]"]) simp
  next
    case False
    define k where "k = pick c mod length active"
    define active' where "active' = take k active @ drop (Suc k) active @ take 1 queue"
    have k: "k < length active" using False by (simp add: k_def)
    have inv: "active' = [] \<Longrightarrow> drop 1 queue = []"
      by (cases queue) (auto simp: active'_def)
    have ms: "mset (active' @ drop 1 queue) + {#active ! k#} = mset (active @ queue)"
      using remove_nth_mset [OF k] by (cases queue) (auto simp: active'_def)
    have "\<exists>order. mset order = mset (active' @ drop 1 queue)
       \<and> completions (fst (pool_loop net pick True n active' (drop 1 queue) (c + 1)))
           = callbacks_in_order net n (c + 1) order"
      unfolding active'_def
      using inv by (intro "1.hyps" [OF False k_def refl refl refl]) (simp add: active'_def)
    then obtain order where order: "mset order = mset (active' @ drop 1 queue)"
      and tr: "completions (fst (pool_loop net pick True n active' (drop 1 queue) (c + 1)))
           = callbacks_in_order net n (c + 1) order"
      by blast
    have unfold: "completions (fst (pool_loop net pick True n active queue c))
            = Complete (fst (active ! k)) # Progress (c + 1) n (processOne net (active ! k))
                # completions (fst (pool_loop net pick True n active' (drop 1 queue) (c + 1)))"
      using False by (subst pool_loop.simps) (simp add: Let_def k_def active'_def)
    have "mset (active ! k # order) = mset (active @ queue)"
      using order ms by simp
    moreover have "completions (fst (pool_loop net pick True n active queue c))
            = callbacks_in_order net n c (active ! k # order)"
      by (simp only: unfold tr callbacks_in_order.simps)
    ultimately show ?thesis by blast
  qed
qed

lemma run_batch_trace:
  assumes "1 \<le> limit"
  shows "\<exists>order. mset order = mset batch
     \<and> completions (fst (run_batch net pick True n limit batch c))
         = callbacks_in_order net n c order"
proof -
  have inv: "take limit batch = [] \<Longrightarrow> drop limit batch = []" using assms by (cases batch) auto
  have "\<exists>order. mset order = mset (take limit batch @ drop limit batch)
     \<and> completions (fst (pool_loop net pick True n (take limit batch) (drop limit batch) c))
         = callbacks_in_order net n c order"
    by (rule pool_loop_trace) (rule inv)
  then show ?thesis by (simp add: run_batch_def Let_def)
qed

lemma run_batches_trace:
  assumes "1 \<le> limit"
  shows "\<exists>order. mset order = mset (concat batches)
     \<and> completions (snd (run_batches net pick True n limit pd batches c))
         = callbacks_in_order net n c order"
proof (induction batches arbitrary: c)
  case Nil
  show ?case by (intro exI [of _ "[]"]) simp
next
  case (Cons b bs)
  let ?c' = "snd (run_batch net pick True n limit b c)"
  have c': "?c' = c + length b" by (rule run_batch_count [OF assms])
  from run_batch_trace [OF assms, of b net pick n c]
  obtain o1 where o1: "mset o1 = mset b"
    and t1: "completions (fst (run_batch net pick True n limit b c)) = callbacks_in_order net n c o1"
    by blast
  from Cons.IH [of ?c']
  obtain o2 where o2: "mset o2 = mset (concat bs)"
    and t2: "completions (snd (run_batches net pick True n limit pd bs ?c'))
               = callbacks_in_order net n ?c' o2"
    by blast
  from o1 have len: "length o1 = length b" by (metis size_mset)
  have pause: "completions (if bs \<noteq> [] \<and> 0 < pd then [Sleep pd] else []) = ([] :: 'a event list)"
    by simp
  have "completions (snd (run_batches net pick True n limit pd (b # bs) c))
          = callbacks_in_order net n c o1 @ callbacks_in_order net n (c + length o1) o2"
    using pause t1 t2 c' len by (simp add: Let_def)
  then have "completions (snd (run_batches net pick True n limit pd (b # bs) c))
          = callbacks_in_order net n c (o1 @ o2)"
    by (simp only: callbacks_in_order_append)
  moreover have "mset (o1 @ o2) = mset (concat (b # bs))" using o1 o2 by simp
  ultimately show ?case by blast
qed

lemma processVideos_out_of_order:
  "processVideos example_net (\<lambda>n. 1)
     [manual_video ''aaaaaaaaaaa'', manual_video ''ccccccccccc'']
     (options_with (Some 2) None None None True)
   = Some (Inr ([\<lparr>meta = manual_video ''aaaaaaaaaaa'', transcript = Some 0, error = None\<rparr>,
                 \<lparr>meta = manual_video ''ccccccccccc'', transcript = Some 1, error = None\<rparr>],
                [Dispatch 0, Dispatch 1,
                 Complete 1,
                 Progress 1 2 \<lparr>meta = manual_video ''ccccccccccc'', transcript = Some 1, error = None\<rparr>,
                 Complete 0,
                 Progress 2 2 \<lparr>meta = manual_video ''aaaaaaaaaaa'', transcript = Some 0, error = None\<rparr>]))"
  by code_simp

text \<open>
  C6, as amended. In collect mode, with valid options and a callback supplied, the
  callback is invoked exactly once per completed attempt: every attempt completes once,
  and each completion is followed at once, before any other completion, by the call of
  the callback with the number of attempts completed so far, the total and the result
  of the attempt that has just completed. So the calls carry the counts
  \<open>1, 2, \<dots>, total\<close> in order of completion, which need not be the input order, and their
  results are the results of the run, each once.
\<close>

theorem onProgress_collect:
  "1 \<le> or_default (concurrency options) DEFAULT_CONCURRENCY
   \<and> 1 \<le> or_default (pauseAfter options) DEFAULT_PAUSE_AFTER
   \<and> onProgress options \<longrightarrow>
   (\<exists>results events order.
      processVideos net pick videos options = Some (Inr (results, events))
      \<and> length results = length (toProcess_of videos (or_default (skipIds options) {}))
      \<and> mset order = mset (attempts (toProcess_of videos (or_default (skipIds options) {})))
      \<and> completions events = callbacks_in_order net (length results) 0 order
      \<and> map fst (progress_calls events) = [1 ..< length results + 1]
      \<and> (\<forall>p \<in> set (progress_calls events). fst (snd p) = length results)
      \<and> mset (map (\<lambda>p. snd (snd p)) (progress_calls events)) = mset results)"
proof
  let ?tp = "toProcess_of videos (or_default (skipIds options) {})"
  let ?limit = "nat (or_default (concurrency options) DEFAULT_CONCURRENCY)"
  let ?pd = "or_default (pauseDuration options) DEFAULT_PAUSE_DURATION"
  let ?batches = "chunks (nat (or_default (pauseAfter options) DEFAULT_PAUSE_AFTER)) (attempts ?tp)"
  assume valid: "1 \<le> or_default (concurrency options) DEFAULT_CONCURRENCY
   \<and> 1 \<le> or_default (pauseAfter options) DEFAULT_PAUSE_AFTER \<and> onProgress options"
  then have c: "1 \<le> or_default (concurrency options) DEFAULT_CONCURRENCY"
    and pa: "1 \<le> or_default (pauseAfter options) DEFAULT_PAUSE_AFTER"
    and cb: "onProgress options" by simp_all
  show "\<exists>results events order.
      processVideos net pick videos options = Some (Inr (results, events))
      \<and> length results = length ?tp
      \<and> mset order = mset (attempts ?tp)
      \<and> completions events = callbacks_in_order net (length results) 0 order
      \<and> map fst (progress_calls events) = [1 ..< length results + 1]
      \<and> (\<forall>p \<in> set (progress_calls events). fst (snd p) = length results)
      \<and> mset (map (\<lambda>p. snd (snd p)) (progress_calls events)) = mset results"
  proof (cases "?tp = []")
    case True
    then have run: "processVideos net pick videos options = Some (Inr ([], []))"
      by (simp add: processVideos_def)
    show ?thesis
    proof (intro exI conjI)
      show "processVideos net pick videos options = Some (Inr ([], []))" by (rule run)
      show "length ([] :: 'a TranscriptResult list) = length ?tp" using True by simp
      show "mset ([] :: (nat \<times> WatchHistoryMeta) list) = mset (attempts ?tp)"
        using True by (simp add: attempts_def)
      show "completions [] = callbacks_in_order net (length ([] :: 'a TranscriptResult list)) 0 []"
        by simp
      show "map fst (progress_calls ([] :: 'a event list))
              = [1 ..< length ([] :: 'a TranscriptResult list) + 1]" by simp
      show "\<forall>p \<in> set (progress_calls ([] :: 'a event list)).
              fst (snd p) = length ([] :: 'a TranscriptResult list)" by simp
      show "mset (map (\<lambda>p. snd (snd p)) (progress_calls ([] :: 'a event list)))
              = mset ([] :: 'a TranscriptResult list)" by simp
    qed
  next
    case False
    let ?run = "run_batches net pick True (length ?tp) ?limit ?pd ?batches 0"
    have run: "processVideos net pick videos options = Some (Inr (fst ?run, snd ?run))"
      using processVideos_run [OF False c pa, of net pick] cb by simp
    have limit: "1 \<le> ?limit" using c by simp
    have pos: "0 < nat (or_default (pauseAfter options) DEFAULT_PAUSE_AFTER)" using pa by simp
    have cc: "concat ?batches = attempts ?tp" by (rule concat_chunks [OF pos])
    have res: "fst ?run = map (processOne net) (attempts ?tp)"
      by (simp only: run_batches_results cc)
    have len: "length (fst ?run) = length ?tp"
      by (simp add: res attempts_length)
    note pr = run_batches_progress [OF limit, of net pick "length ?tp" ?pd ?batches 0]
    have a: "map fst (progress_calls (snd ?run)) = [1 ..< length (fst ?run) + 1]"
      using pr by (simp add: cc attempts_length len)
    have b: "\<forall>p \<in> set (progress_calls (snd ?run)). fst (snd p) = length (fst ?run)"
      using pr unfolding len by blast
    have d: "mset (map (\<lambda>p. snd (snd p)) (progress_calls (snd ?run))) = mset (fst ?run)"
      using pr unfolding res cc by blast
    from run_batches_trace [OF limit, of ?batches net pick "length ?tp" ?pd 0]
    obtain order where order: "mset order = mset (attempts ?tp)"
      and tr: "completions (snd ?run) = callbacks_in_order net (length (fst ?run)) 0 order"
      unfolding cc len by blast
    show ?thesis using run len order tr a b d by blast
  qed
qed

theorem onProgress_collect_witness:
  "1 \<le> or_default (concurrency (options_with (Some 2) None None None True)) DEFAULT_CONCURRENCY
   \<and> 1 \<le> or_default (pauseAfter (options_with (Some 2) None None None True)) DEFAULT_PAUSE_AFTER
   \<and> onProgress (options_with (Some 2) None None None True)
   \<and> (\<exists>order.
        mset order = mset [(0, manual_video ''aaaaaaaaaaa''), (1, manual_video ''ccccccccccc'')]
        \<and> [Complete 1,
            Progress 1 2 \<lparr>meta = manual_video ''ccccccccccc'', transcript = Some 1, error = None\<rparr>,
            Complete 0,
            Progress 2 2 \<lparr>meta = manual_video ''aaaaaaaaaaa'', transcript = Some 0, error = None\<rparr>]
          = callbacks_in_order example_net 2 0 order)"
proof -
  let ?vs = "[manual_video ''aaaaaaaaaaa'', manual_video ''ccccccccccc'']"
  let ?o = "options_with (Some 2) None None None True"
  have tp: "toProcess_of ?vs (or_default (skipIds ?o) {}) = ?vs"
    by (simp add: toProcess_of_def or_default_def options_with_def)
  have at: "attempts ?vs = [(0, manual_video ''aaaaaaaaaaa''), (1, manual_video ''ccccccccccc'')]"
    by (simp add: attempts_def upt_rec)
  have hyp: "1 \<le> or_default (concurrency ?o) DEFAULT_CONCURRENCY
     \<and> 1 \<le> or_default (pauseAfter ?o) DEFAULT_PAUSE_AFTER \<and> onProgress ?o"
    by (simp add: or_default_def options_with_def DEFAULT_PAUSE_AFTER_def)
  from onProgress_collect [of ?o example_net "\<lambda>n. 1" ?vs] hyp
  obtain results events order where
    run: "processVideos example_net (\<lambda>n. 1) ?vs ?o = Some (Inr (results, events))"
    and len: "length results = length (toProcess_of ?vs (or_default (skipIds ?o) {}))"
    and order: "mset order = mset (attempts (toProcess_of ?vs (or_default (skipIds ?o) {})))"
    and tr: "completions events = callbacks_in_order example_net (length results) 0 order"
    by blast
  from len have len2: "length results = 2" by (simp add: tp)
  from run have ev: "events = [Dispatch 0, Dispatch 1,
                 Complete 1,
                 Progress 1 2 \<lparr>meta = manual_video ''ccccccccccc'', transcript = Some 1, error = None\<rparr>,
                 Complete 0,
                 Progress 2 2 \<lparr>meta = manual_video ''aaaaaaaaaaa'', transcript = Some 0, error = None\<rparr>]"
    by (simp only: processVideos_out_of_order option.inject sum.inject prod.inject)
  have tr2: "[Complete 1,
            Progress 1 2 \<lparr>meta = manual_video ''ccccccccccc'', transcript = Some 1, error = None\<rparr>,
            Complete 0,
            Progress 2 2 \<lparr>meta = manual_video ''aaaaaaaaaaa'', transcript = Some 0, error = None\<rparr>]
          = callbacks_in_order example_net 2 0 order"
    using tr unfolding ev len2 by simp
  have order2: "mset order = mset [(0, manual_video ''aaaaaaaaaaa''), (1, manual_video ''ccccccccccc'')]"
    using order by (simp only: tp at)
  from order2 tr2 have "\<exists>order.
        mset order = mset [(0, manual_video ''aaaaaaaaaaa''), (1, manual_video ''ccccccccccc'')]
        \<and> [Complete 1,
            Progress 1 2 \<lparr>meta = manual_video ''ccccccccccc'', transcript = Some 1, error = None\<rparr>,
            Complete 0,
            Progress 2 2 \<lparr>meta = manual_video ''aaaaaaaaaaa'', transcript = Some 0, error = None\<rparr>]
          = callbacks_in_order example_net 2 0 order"
    by (intro exI conjI)
  with hyp show ?thesis by (simp only: simp_thms)
qed

text \<open>
  The claim as first stated had the callback invoked in stream mode as well.
  \<open>streamVideos\<close> does not read \<open>onProgress\<close>: with a callback supplied and one candidate,
  one attempt completes and the callback is not invoked.
\<close>

theorem streamVideos_ignores_onProgress:
  "onProgress (options_with None None None None True)
   \<and> streamVideos example_net [manual_video ''aaaaaaaaaaa''] (options_with None None None None True)
     = Inr [Dispatch 0, Complete 0,
            Yield \<lparr>meta = manual_video ''aaaaaaaaaaa'', transcript = Some 0, error = None\<rparr>]
   \<and> progress_calls
        [Dispatch 0, Complete 0,
         Yield \<lparr>meta = manual_video ''aaaaaaaaaaa'', transcript = Some (0::nat), error = None\<rparr>] = []"
  by code_simp

section \<open>Properties of the loaders\<close>

subsection \<open>Merging sources\<close>

lemma foldl_sources: "foldl (\<lambda>seen source. foldl f seen source) s xss = foldl f s (concat xss)"
  by (induction xss arbitrary: s) simp_all

lemma merge_step_absent:
  "map_of seen (videoId m) = None \<Longrightarrow> merge_step seen m = seen @ [(videoId m, m)]"
  by (simp add: merge_step_def map_has_def map_set_def)

lemma merge_step_present:
  "map_of seen (videoId m) = Some v \<Longrightarrow> merge_step seen m = seen"
  by (simp add: merge_step_def map_has_def)

lemma merge_lookup:
  "map_of (foldl merge_step seen xs) k
     = (case map_of seen k of Some v \<Rightarrow> Some v | None \<Rightarrow> find (\<lambda>m. videoId m = k) xs)"
proof (induction xs arbitrary: seen)
  case Nil
  show ?case by (simp split: option.splits)
next
  case (Cons x xs)
  show ?case
  proof (cases "map_of seen (videoId x)")
    case None
    then show ?thesis
      by (simp add: Cons.IH merge_step_absent map_add_def split: option.splits)
  next
    case (Some v)
    then show ?thesis
      by (auto simp: Cons.IH merge_step_present split: option.splits)
  qed
qed

lemma merge_distinct:
  "distinct (map fst seen) \<Longrightarrow> distinct (map fst (foldl merge_step seen xs))"
proof (induction xs arbitrary: seen)
  case Nil
  then show ?case by simp
next
  case (Cons x xs)
  show ?case
  proof (cases "map_of seen (videoId x)")
    case None
    then have "videoId x \<notin> fst ` set seen" by (simp add: map_of_eq_None_iff)
    with Cons.prems have "distinct (map fst (seen @ [(videoId x, x)]))" by simp
    then show ?thesis using None by (simp add: merge_step_absent Cons.IH)
  next
    case (Some v)
    then show ?thesis using Cons by (simp add: merge_step_present)
  qed
qed

lemma merge_keys:
  "(\<forall>e \<in> set seen. fst e = videoId (snd e)) \<Longrightarrow>
   (\<forall>e \<in> set (foldl merge_step seen xs). fst e = videoId (snd e))"
proof (induction xs arbitrary: seen)
  case Nil
  then show ?case by simp
next
  case (Cons x xs)
  show ?case
  proof (cases "map_of seen (videoId x)")
    case None
    from Cons.prems have "\<forall>e \<in> set (seen @ [(videoId x, x)]). fst e = videoId (snd e)" by simp
    then show ?thesis using None Cons.IH by (simp only: foldl.simps merge_step_absent)
  next
    case (Some v)
    then show ?thesis using Cons by (simp add: merge_step_present)
  qed
qed

lemma values_of_key:
  "distinct (map fst al) \<Longrightarrow> (\<forall>e \<in> set al. fst e = videoId (snd e)) \<Longrightarrow>
   filter (\<lambda>m. videoId m = k) (map snd al)
     = (case map_of al k of None \<Rightarrow> [] | Some v \<Rightarrow> [v])"
proof (induction al)
  case Nil
  show ?case by simp
next
  case (Cons e al)
  obtain k' v' where e: "e = (k', v')" by (cases e)
  from Cons.prems e have key: "k' = videoId v'" by simp
  from Cons.prems have ih: "filter (\<lambda>m. videoId m = k) (map snd al)
     = (case map_of al k of None \<Rightarrow> [] | Some v \<Rightarrow> [v])"
    by (intro Cons.IH) simp_all
  show ?case
  proof (cases "k' = k")
    case True
    with Cons.prems e have "k \<notin> fst ` set al" by auto
    then have "map_of al k = None" by (simp add: map_of_eq_None_iff)
    with ih True e key show ?thesis by simp
  next
    case False
    with ih e key show ?thesis by simp
  qed
qed

lemma find_concat:
  "find P (concat xss) = Some r \<Longrightarrow>
   \<exists>i. i < length xss \<and> (\<forall>j < i. \<forall>x \<in> set (xss ! j). \<not> P x) \<and> find P (xss ! i) = Some r"
proof (induction xss)
  case Nil
  then show ?case by simp
next
  case (Cons xs xss)
  show ?case
  proof (cases "find P xs")
    case None
    then have none: "\<forall>x \<in> set xs. \<not> P x" by (simp add: find_None_iff)
    from Cons.prems None have "find P (concat xss) = Some r"
      by (induction xs) (auto split: if_splits)
    from Cons.IH [OF this] obtain i where i: "i < length xss"
      "\<forall>j < i. \<forall>x \<in> set (xss ! j). \<not> P x" "find P (xss ! i) = Some r" by blast
    have "\<forall>j < Suc i. \<forall>x \<in> set ((xs # xss) ! j). \<not> P x"
    proof (intro allI impI)
      fix j assume "j < Suc i"
      then show "\<forall>x \<in> set ((xs # xss) ! j). \<not> P x"
        using none i(2) by (cases j) auto
    qed
    with i show ?thesis by (intro exI [of _ "Suc i"]) simp
  next
    case (Some a)
    with Cons.prems have "find P xs = Some r"
      by (induction xs) (auto split: if_splits)
    then show ?thesis by (intro exI [of _ 0]) simp
  qed
qed

lemma merge_filter:
  "filter (\<lambda>m. videoId m = k) (mergeVideoSources sources)
     = (case find (\<lambda>m. videoId m = k) (concat sources) of None \<Rightarrow> [] | Some r \<Rightarrow> [r])"
proof -
  let ?al = "foldl merge_step [] (concat sources)"
  have d: "distinct (map fst ?al)" by (rule merge_distinct) simp
  have ks: "\<forall>e \<in> set ?al. fst e = videoId (snd e)" by (rule merge_keys) simp
  have "map_of ?al k = find (\<lambda>m. videoId m = k) (concat sources)"
    by (simp add: merge_lookup)
  then show ?thesis
    using values_of_key [OF d ks, of k]
    by (simp add: mergeVideoSources_def map_values_def foldl_sources)
qed

text \<open>
  C8. For every \<open>videoId\<close> that occurs in the sources, the merged list holds exactly one
  record with it: the first such record of the earliest source that mentions it. The
  merged list holds no other identifiers.
\<close>

theorem mergeVideoSources_first_wins:
  "(\<forall>k \<in> videoId ` set (concat sources).
      \<exists>i r. i < length sources
        \<and> (\<forall>j < i. k \<notin> videoId ` set (sources ! j))
        \<and> find (\<lambda>m. videoId m = k) (sources ! i) = Some r
        \<and> filter (\<lambda>m. videoId m = k) (mergeVideoSources sources) = [r])
   \<and> videoId ` set (mergeVideoSources sources) = videoId ` set (concat sources)"
proof (intro conjI ballI)
  fix k
  assume "k \<in> videoId ` set (concat sources)"
  then have "find (\<lambda>m. videoId m = k) (concat sources) \<noteq> None"
    by (auto simp: find_None_iff)
  then obtain r where r: "find (\<lambda>m. videoId m = k) (concat sources) = Some r" by blast
  from find_concat [OF r] obtain i where i: "i < length sources"
    "\<forall>j < i. \<forall>x \<in> set (sources ! j). \<not> videoId x = k"
    "find (\<lambda>m. videoId m = k) (sources ! i) = Some r" by blast
  from i(2) have "\<forall>j < i. k \<notin> videoId ` set (sources ! j)" by auto
  moreover have "filter (\<lambda>m. videoId m = k) (mergeVideoSources sources) = [r]"
    by (simp add: merge_filter r)
  ultimately show "\<exists>i r. i < length sources
        \<and> (\<forall>j < i. k \<notin> videoId ` set (sources ! j))
        \<and> find (\<lambda>m. videoId m = k) (sources ! i) = Some r
        \<and> filter (\<lambda>m. videoId m = k) (mergeVideoSources sources) = [r]"
    using i(1,3) by blast
next
  show "videoId ` set (mergeVideoSources sources) = videoId ` set (concat sources)"
  proof (intro set_eqI iffI)
    fix k
    assume "k \<in> videoId ` set (mergeVideoSources sources)"
    then have "filter (\<lambda>m. videoId m = k) (mergeVideoSources sources) \<noteq> []"
      by (auto simp: filter_empty_conv)
    then have "find (\<lambda>m. videoId m = k) (concat sources) \<noteq> None"
      by (auto simp: merge_filter split: option.splits)
    then show "k \<in> videoId ` set (concat sources)"
      by (auto simp: find_None_iff)
  next
    fix k
    assume "k \<in> videoId ` set (concat sources)"
    then have "find (\<lambda>m. videoId m = k) (concat sources) \<noteq> None"
      by (auto simp: find_None_iff)
    then obtain r where "filter (\<lambda>m. videoId m = k) (mergeVideoSources sources) = [r]"
      by (auto simp: merge_filter)
    then have "r \<in> set (filter (\<lambda>m. videoId m = k) (mergeVideoSources sources))" by simp
    then show "k \<in> videoId ` set (mergeVideoSources sources)" by auto
  qed
qed

theorem mergeVideoSources_first_wins_witness:
  "''vid1'' \<in> videoId ` set (concat [[history_video ''vid1'' ''First''],
                                       [watch_later_video ''vid1'' ''Second'', watch_later_video ''vid2'' ''Other'']])
   \<and> (\<exists>i r. i < length [[history_video ''vid1'' ''First''],
                          [watch_later_video ''vid1'' ''Second'', watch_later_video ''vid2'' ''Other'']]
        \<and> filter (\<lambda>m. videoId m = ''vid1'')
             (mergeVideoSources [[history_video ''vid1'' ''First''],
                [watch_later_video ''vid1'' ''Second'', watch_later_video ''vid2'' ''Other'']]) = [r])
   \<and> mergeVideoSources [[history_video ''vid1'' ''First''],
        [watch_later_video ''vid1'' ''Second'', watch_later_video ''vid2'' ''Other'']]
      = [history_video ''vid1'' ''First'', watch_later_video ''vid2'' ''Other'']"
proof -
  let ?s = "[[history_video ''vid1'' ''First''],
             [watch_later_video ''vid1'' ''Second'', watch_later_video ''vid2'' ''Other'']]"
  have mem: "''vid1'' \<in> videoId ` set (concat ?s)"
    by (simp add: history_video_def)
  from mergeVideoSources_first_wins [of ?s] mem
  have "\<exists>i r. i < length ?s
        \<and> (\<forall>j < i. ''vid1'' \<notin> videoId ` set (?s ! j))
        \<and> find (\<lambda>m. videoId m = ''vid1'') (?s ! i) = Some r
        \<and> filter (\<lambda>m. videoId m = ''vid1'') (mergeVideoSources ?s) = [r]"
    by blast
  then have ex: "\<exists>i r. i < length ?s
        \<and> filter (\<lambda>m. videoId m = ''vid1'') (mergeVideoSources ?s) = [r]"
    by blast
  have run: "mergeVideoSources ?s = [history_video ''vid1'' ''First'', watch_later_video ''vid2'' ''Other'']"
    by (simp add: mergeVideoSources_def merge_step_def map_has_def map_set_def map_values_def
        history_video_def watch_later_video_def)
  from mem ex run show ?thesis by (simp only: simp_thms)
qed


subsection \<open>Identifiers delivered by the loaders\<close>
















section \<open>Properties of the track selector\<close>

lemma find_filter: "find P (filter Q xs) = find (\<lambda>x. Q x \<and> P x) xs"
  by (induction xs) simp_all

lemma first_of_filter:
  "(case filter Q xs of first # _ \<Rightarrow> Some first | [] \<Rightarrow> d)
     = (case find Q xs of Some first \<Rightarrow> Some first | None \<Rightarrow> d)"
  by (induction xs) simp_all

lemma select_step:
  "tracks \<noteq> [] \<Longrightarrow>
   select tracks (tag # tags) =
     (case find (\<lambda>c. prefix tag (languageCode c) \<and> kind c = MANUAL) tracks of
        Some manual \<Rightarrow> Some manual
      | None \<Rightarrow>
          (case find (\<lambda>c. prefix tag (languageCode c)) tracks of
             Some first \<Rightarrow> Some first
           | None \<Rightarrow> select tracks tags))"
  by (cases tracks) (simp_all only: select.simps Let_def find_filter first_of_filter list.simps)

lemma select_no_match:
  "tracks \<noteq> [] \<Longrightarrow>
   \<forall>tag \<in> set prefs. \<forall>c \<in> set tracks. \<not> prefix tag (languageCode c) \<Longrightarrow>
   select tracks prefs = Some (hd tracks)"
proof (induction prefs)
  case Nil
  then show ?case by (cases tracks) simp_all
next
  case (Cons tag tags)
  from Cons.prems have none: "\<forall>c \<in> set tracks. \<not> prefix tag (languageCode c)" by simp
  then have "find (\<lambda>c. prefix tag (languageCode c)) tracks = None"
    and "find (\<lambda>c. prefix tag (languageCode c) \<and> kind c = MANUAL) tracks = None"
    by (auto simp: find_None_iff)
  then have "select tracks (tag # tags) = select tracks tags"
    using Cons.prems(1) by (simp add: select_step)
  with Cons show ?case by simp
qed

lemma select_earliest:
  "tracks \<noteq> [] \<Longrightarrow> i < length prefs \<Longrightarrow>
   \<forall>j < i. \<forall>c \<in> set tracks. \<not> prefix (prefs ! j) (languageCode c) \<Longrightarrow>
   \<exists>c \<in> set tracks. prefix (prefs ! i) (languageCode c) \<Longrightarrow>
   select tracks prefs =
     (case find (\<lambda>c. prefix (prefs ! i) (languageCode c) \<and> kind c = MANUAL) tracks of
        Some manual \<Rightarrow> Some manual
      | None \<Rightarrow> find (\<lambda>c. prefix (prefs ! i) (languageCode c)) tracks)"
proof (induction prefs arbitrary: i)
  case Nil
  then show ?case by simp
next
  case (Cons tag tags)
  show ?case
  proof (cases i)
    case 0
    from Cons.prems(4) 0 have "find (\<lambda>c. prefix tag (languageCode c)) tracks \<noteq> None"
      by (auto simp: find_None_iff)
    then show ?thesis using Cons.prems(1) 0
      by (auto simp: select_step split: option.splits)
  next
    case (Suc i')
    from Cons.prems(3) Suc have none: "\<forall>c \<in> set tracks. \<not> prefix tag (languageCode c)"
      by fastforce
    then have "find (\<lambda>c. prefix tag (languageCode c)) tracks = None"
      and "find (\<lambda>c. prefix tag (languageCode c) \<and> kind c = MANUAL) tracks = None"
      by (auto simp: find_None_iff)
    then have step: "select tracks (tag # tags) = select tracks tags"
      using Cons.prems(1) by (simp add: select_step)
    have nth: "(tag # tags) ! i = tags ! i'" using Suc by simp
    have "select tracks tags =
       (case find (\<lambda>c. prefix (tags ! i') (languageCode c) \<and> kind c = MANUAL) tracks of
          Some manual \<Rightarrow> Some manual
        | None \<Rightarrow> find (\<lambda>c. prefix (tags ! i') (languageCode c)) tracks)"
    proof (rule Cons.IH)
      show "tracks \<noteq> []" by (rule Cons.prems(1))
      show "i' < length tags" using Cons.prems(2) Suc by simp
      show "\<forall>j < i'. \<forall>c \<in> set tracks. \<not> prefix (tags ! j) (languageCode c)"
        using Cons.prems(3) Suc by fastforce
      show "\<exists>c \<in> set tracks. prefix (tags ! i') (languageCode c)"
        using Cons.prems(4) Suc by simp
    qed
    then show ?thesis unfolding nth step .
  qed
qed

text \<open>
  C3. For a non-empty track list, the selector returns a track of the earliest preferred
  tag that is a prefix of some track's language code: the first manual track with that
  tag in the order of the list if there is one, otherwise the first track with that tag,
  which is then auto-generated, whatever manual tracks later tags would match. When no
  preferred tag matches any track it returns the first track of the list.
\<close>

theorem select_earliest_language:
  "tracks \<noteq> [] \<longrightarrow>
     ((\<forall>tag \<in> set prefs. \<forall>c \<in> set tracks. \<not> prefix tag (languageCode c)) \<longrightarrow>
        select tracks prefs = Some (hd tracks))
     \<and> (\<forall>i < length prefs.
          (\<forall>j < i. \<forall>c \<in> set tracks. \<not> prefix (prefs ! j) (languageCode c))
          \<and> (\<exists>c \<in> set tracks. prefix (prefs ! i) (languageCode c)) \<longrightarrow>
          (\<exists>t. select tracks prefs = Some t
             \<and> t \<in> set tracks \<and> prefix (prefs ! i) (languageCode t)
             \<and> ((\<exists>c \<in> set tracks. prefix (prefs ! i) (languageCode c) \<and> kind c = MANUAL) \<longrightarrow>
                  find (\<lambda>c. prefix (prefs ! i) (languageCode c) \<and> kind c = MANUAL) tracks = Some t)
             \<and> ((\<forall>c \<in> set tracks. prefix (prefs ! i) (languageCode c) \<longrightarrow> kind c \<noteq> MANUAL) \<longrightarrow>
                  find (\<lambda>c. prefix (prefs ! i) (languageCode c)) tracks = Some t
                  \<and> kind t = AUTO_GENERATED)))"
proof (intro impI conjI allI)
  assume "tracks \<noteq> []"
    and "\<forall>tag \<in> set prefs. \<forall>c \<in> set tracks. \<not> prefix tag (languageCode c)"
  then show "select tracks prefs = Some (hd tracks)" by (rule select_no_match)
next
  fix i
  let ?matches = "\<lambda>c. prefix (prefs ! i) (languageCode c)"
  let ?manual = "\<lambda>c. prefix (prefs ! i) (languageCode c) \<and> kind c = MANUAL"
  assume ne: "tracks \<noteq> []" and i: "i < length prefs"
    and hyp: "(\<forall>j < i. \<forall>c \<in> set tracks. \<not> prefix (prefs ! j) (languageCode c))
          \<and> (\<exists>c \<in> set tracks. ?matches c)"
  then have sel: "select tracks prefs =
      (case find ?manual tracks of Some manual \<Rightarrow> Some manual | None \<Rightarrow> find ?matches tracks)"
    using select_earliest [of tracks i prefs] by blast
  show "\<exists>t. select tracks prefs = Some t
             \<and> t \<in> set tracks \<and> ?matches t
             \<and> ((\<exists>c \<in> set tracks. ?manual c) \<longrightarrow> find ?manual tracks = Some t)
             \<and> ((\<forall>c \<in> set tracks. ?matches c \<longrightarrow> kind c \<noteq> MANUAL) \<longrightarrow>
                  find ?matches tracks = Some t \<and> kind t = AUTO_GENERATED)"
  proof (cases "find ?manual tracks")
    case (Some m)
    then have m: "m \<in> set tracks" "?manual m"
      by (auto simp: find_Some_iff)
    with Some sel show ?thesis by auto
  next
    case None
    then have nomanual: "\<forall>c \<in> set tracks. ?matches c \<longrightarrow> kind c \<noteq> MANUAL"
      by (auto simp: find_None_iff)
    from hyp have "find ?matches tracks \<noteq> None" by (auto simp: find_None_iff)
    then obtain t where t: "find ?matches tracks = Some t" by blast
    then have tin: "t \<in> set tracks" "?matches t"
      by (auto simp: find_Some_iff)
    with nomanual have "kind t = AUTO_GENERATED" by (cases "kind t") auto
    with None sel t tin nomanual show ?thesis by auto
  qed
qed

theorem select_earliest_language_witness:
  "[track ''es'' AUTO_GENERATED, track ''en'' MANUAL] \<noteq> []
   \<and> (0::nat) < length [''es'', ''en'']
   \<and> (\<exists>c \<in> set [track ''es'' AUTO_GENERATED, track ''en'' MANUAL].
         prefix ([''es'', ''en''] ! 0) (languageCode c))
   \<and> select [track ''es'' AUTO_GENERATED, track ''en'' MANUAL] [''es'', ''en'']
       = Some (track ''es'' AUTO_GENERATED)
   \<and> select [track ''fr'' MANUAL] [''de''] = Some (track ''fr'' MANUAL)"
proof -
  let ?tracks = "[track ''es'' AUTO_GENERATED, track ''en'' MANUAL]"
  let ?prefs = "[''es'', ''en'']"
  have ne: "?tracks \<noteq> []" by simp
  have i: "(0::nat) < length ?prefs" by simp
  have m: "\<exists>c \<in> set ?tracks. prefix (?prefs ! 0) (languageCode c)"
    by (simp add: track_def)
  have a: "\<forall>c \<in> set ?tracks. prefix (?prefs ! 0) (languageCode c) \<longrightarrow> kind c \<noteq> MANUAL"
    by (simp add: track_def)
  have f: "find (\<lambda>c. prefix (?prefs ! 0) (languageCode c)) ?tracks = Some (track ''es'' AUTO_GENERATED)"
    by (simp add: track_def)
  from select_earliest_language [of ?tracks ?prefs] ne i m a
  obtain t where st: "select ?tracks ?prefs = Some t"
    and ft: "find (\<lambda>c. prefix (?prefs ! 0) (languageCode c)) ?tracks = Some t"
    by blast
  from ft f have "t = track ''es'' AUTO_GENERATED" by (metis option.inject)
  with st have s1: "select ?tracks ?prefs = Some (track ''es'' AUTO_GENERATED)" by (simp only:)
  have n: "\<forall>tag \<in> set [''de'']. \<forall>c \<in> set [track ''fr'' MANUAL]. \<not> prefix tag (languageCode c)"
    by (simp add: track_def)
  from select_earliest_language [of "[track ''fr'' MANUAL]" "[''de'']"] n
  have s2: "select [track ''fr'' MANUAL] [''de''] = Some (track ''fr'' MANUAL)" by simp
  from ne i m s1 s2 show ?thesis by (simp only: simp_thms)
qed


section \<open>Properties of \<open>loadProcessedIds\<close>\<close>

lemma get_prop_field:
  "get_prop r k = (if r = JNull then Inl TypeError else Inr (field r k))"
  by (cases r) simp_all

lemma meta_videoId_field:
  "meta_videoId r =
     (if r = JNull then Inl TypeError
      else Inr (case field r ''meta'' of None \<Rightarrow> None | Some m \<Rightarrow> field m ''videoId''))"
proof (cases "r = JNull")
  case True
  then show ?thesis by (simp add: meta_videoId_def)
next
  case False
  show ?thesis
  proof (cases "field r ''meta''")
    case None
    with False show ?thesis by (simp add: meta_videoId_def get_prop_field)
  next
    case (Some m)
    with False show ?thesis
      by (cases "m = JNull") (simp_all add: meta_videoId_def get_prop_field)
  qed
qed

lemma line_id_JNull: "line_id JNull = None"
  by (simp add: line_id_def truthy_field_def)

lemma process_line_line_id:
  "process_line p ids line =
     (case p line of
        None \<Rightarrow> ids
      | Some r \<Rightarrow> (case line_id r of None \<Rightarrow> ids | Some v \<Rightarrow> set_add ids v))"
proof (cases "p line")
  case None
  then show ?thesis by (simp add: process_line_def)
next
  case (Some r)
  show ?thesis
  proof (cases "r = JNull")
    case True
    with Some show ?thesis
      by (simp add: process_line_def meta_videoId_field line_id_JNull)
  next
    case False
    let ?mv = "case field r ''meta'' of None \<Rightarrow> None | Some m \<Rightarrow> field m ''videoId''"
    show ?thesis
    proof (cases "truthy_field ?mv")
      case (Some v)
      then have mv: "?mv = Some v" "truthy v"
        by (auto simp: truthy_field_def split: option.splits if_splits)
      from Some have "line_id r = Some v" by (simp add: line_id_def)
      with \<open>p line = Some r\<close> False mv show ?thesis
        by (simp add: process_line_def meta_videoId_field)
    next
      case None
      then have nt: "\<not> (case ?mv of None \<Rightarrow> False | Some v \<Rightarrow> truthy v)"
        by (auto simp: truthy_field_def split: option.splits if_splits)
      from None have li: "line_id r = truthy_field (field r ''videoId'')"
        by (simp add: line_id_def)
      show ?thesis
      proof (cases "truthy_field (field r ''videoId'')")
        case None
        then have "\<not> (case field r ''videoId'' of None \<Rightarrow> False | Some v \<Rightarrow> truthy v)"
          by (auto simp: truthy_field_def split: option.splits if_splits)
        with \<open>p line = Some r\<close> False nt li None show ?thesis
          by (simp add: process_line_def meta_videoId_field get_prop_field)
      next
        case (Some v)
        then have "field r ''videoId'' = Some v" "truthy v"
          by (auto simp: truthy_field_def split: option.splits if_splits)
        with \<open>p line = Some r\<close> False nt li Some show ?thesis
          by (simp add: process_line_def meta_videoId_field get_prop_field)
      qed
    qed
  qed
qed

lemma set_set_add: "set (set_add ids v) = insert v (set ids)"
  by (auto simp: set_add_def)

lemma set_process_line:
  "set (process_line p ids line)
     = set ids \<union> {v. \<exists>r. p line = Some r \<and> line_id r = Some v}"
  by (auto simp: process_line_line_id set_set_add split: option.splits)

lemma set_process_lines:
  "set (foldl (process_line p) ids ls)
     = set ids \<union> {v. \<exists>line \<in> set ls. \<exists>r. p line = Some r \<and> line_id r = Some v}"
proof (induction ls arbitrary: ids)
  case Nil
  show ?case by simp
next
  case (Cons l ls)
  have "set (foldl (process_line p) ids (l # ls))
          = set (process_line p ids l)
            \<union> {v. \<exists>line \<in> set ls. \<exists>r. p line = Some r \<and> line_id r = Some v}"
    by (simp add: Cons.IH)
  also have "\<dots> = set ids \<union> {v. \<exists>r. p l = Some r \<and> line_id r = Some v}
            \<union> {v. \<exists>line \<in> set ls. \<exists>r. p line = Some r \<and> line_id r = Some v}"
    by (simp only: set_process_line)
  also have "\<dots> = set ids \<union> {v. \<exists>line \<in> set (l # ls). \<exists>r. p line = Some r \<and> line_id r = Some v}"
    by auto
  finally show ?case .
qed

text \<open>
  C10, as amended. \<open>loadProcessedIds\<close> never fails: every path returns a set. For a
  missing or an unreadable file the set is empty. For any content, the set holds exactly
  the identifiers of the non-blank lines that parse, where a line gives its
  \<open>meta.videoId\<close> when that is truthy and otherwise its top-level \<open>videoId\<close> when that is
  truthy; lines that do not parse, and lines that give neither, are skipped.
\<close>

theorem loadProcessedIds_never_fails:
  "(\<exists>ids. loadProcessedIds JSON_parse f = Inr ids)
   \<and> loadProcessedIds JSON_parse Missing = Inr []
   \<and> loadProcessedIds JSON_parse Unreadable = Inr []
   \<and> (\<exists>ids. loadProcessedIds JSON_parse (Content text) = Inr ids
         \<and> set ids = {v. \<exists>line \<in> set (split_on (CHR 0x0A) text).
                          trim line \<noteq> [] \<and>
                          (\<exists>record. JSON_parse line = Some record \<and> line_id record = Some v)})"
proof (intro conjI)
  show "\<exists>ids. loadProcessedIds JSON_parse f = Inr ids"
    by (cases f) (simp_all add: loadProcessedIds_def file_exists_def file_text_def)
  show "loadProcessedIds JSON_parse Missing = Inr []"
    by (simp add: loadProcessedIds_def file_exists_def)
  show "loadProcessedIds JSON_parse Unreadable = Inr []"
    by (simp add: loadProcessedIds_def file_exists_def file_text_def)
  let ?lines = "filter (\<lambda>l. trim l \<noteq> []) (split_on (CHR 0x0A) text)"
  have run: "loadProcessedIds JSON_parse (Content text)
               = Inr (foldl (process_line JSON_parse) [] ?lines)"
    by (simp add: loadProcessedIds_def file_exists_def file_text_def)
  have "set (foldl (process_line JSON_parse) [] ?lines)
          = {v. \<exists>line \<in> set ?lines. \<exists>r. JSON_parse line = Some r \<and> line_id r = Some v}"
    by (simp add: set_process_lines)
  also have "\<dots> = {v. \<exists>line \<in> set (split_on (CHR 0x0A) text).
                          trim line \<noteq> [] \<and>
                          (\<exists>record. JSON_parse line = Some record \<and> line_id record = Some v)}"
    by auto
  finally show "\<exists>ids. loadProcessedIds JSON_parse (Content text) = Inr ids
         \<and> set ids = {v. \<exists>line \<in> set (split_on (CHR 0x0A) text).
                          trim line \<noteq> [] \<and>
                          (\<exists>record. JSON_parse line = Some record \<and> line_id record = Some v)}"
    using run by blast
qed

lemma loadProcessedIds_malformed:
  "loadProcessedIds example_JSON_parse (Content malformed_jsonl)
   = Inr [JStr ''good1'', JStr ''good2'']"
  by code_simp

theorem loadProcessedIds_never_fails_witness:
  "loadProcessedIds example_JSON_parse Missing = Inr []
   \<and> loadProcessedIds example_JSON_parse (Content malformed_jsonl)
     = Inr [JStr ''good1'', JStr ''good2'']
   \<and> set [JStr ''good1'', JStr ''good2'']
     = {v. \<exists>line \<in> set (split_on (CHR 0x0A) malformed_jsonl).
             trim line \<noteq> [] \<and>
             (\<exists>record. example_JSON_parse line = Some record \<and> line_id record = Some v)}"
proof -
  from loadProcessedIds_never_fails [of example_JSON_parse Missing malformed_jsonl]
  obtain ids where miss: "loadProcessedIds example_JSON_parse Missing = Inr []"
    and run: "loadProcessedIds example_JSON_parse (Content malformed_jsonl) = Inr ids"
    and ids: "set ids = {v. \<exists>line \<in> set (split_on (CHR 0x0A) malformed_jsonl).
             trim line \<noteq> [] \<and>
             (\<exists>record. example_JSON_parse line = Some record \<and> line_id record = Some v)}"
    by blast
  from run have "ids = [JStr ''good1'', JStr ''good2'']"
    by (simp only: loadProcessedIds_malformed sum.inject)
  with miss ids show ?thesis
    by (simp only: loadProcessedIds_malformed simp_thms)
qed

text \<open>
  The claim as first stated had the result hold every \<open>videoId\<close> string found in the lines
  that parse. A line that carries both fields gives only its \<open>meta.videoId\<close>.
\<close>

theorem loadProcessedIds_prefers_meta:
  "loadProcessedIds example_JSON_parse
     (Content ''{\"meta\":{\"videoId\":\"a\"},\"videoId\":\"b\"}'') = Inr [JStr ''a'']
   \<and> videoId_strings_in example_JSON_parse ''{\"meta\":{\"videoId\":\"a\"},\"videoId\":\"b\"}''
       = [JStr ''a'', JStr ''b'']
   \<and> set [JStr ''a'' :: int json] \<noteq> set [JStr ''a'', JStr ''b'']"
  by code_simp


end
